theory Spec2Isabelle
  imports Main
begin

section \<open>Strings of UTF-16 code units\<close>

text \<open>
  A JavaScript string is a sequence of 16-bit code units; \<open>length\<close>, \<open>substring\<close>,
  \<open>indexOf\<close>, \<open>trim\<close> and the regular expressions of \<open>splitter.ts\<close> (none has the
  \<open>u\<close> flag) all work on code units. A code unit is held as its number, so the full-width
  marks of the separator classes (U+FF01, U+FF1F, ...) are ordinary elements.
  \<open>js\<close> writes an ASCII literal.
\<close>

type_synonym jsstring = "nat list"

definition js :: "string \<Rightarrow> jsstring" where
  "js s = map of_char s"

text \<open>
  The set shared by \<open>String.prototype.trim\<close> and the class \<open>\s\<close>: WhiteSpace and
  LineTerminator of ECMAScript (TAB, LF, VT, FF, CR, SP, NBSP, U+1680, U+2000..U+200A,
  U+2028, U+2029, U+202F, U+205F, U+3000, U+FEFF).
\<close>

definition isWhiteSpace :: "nat \<Rightarrow> bool" where
  "isWhiteSpace c \<longleftrightarrow>
     c \<in> {9, 10, 11, 12, 13, 32, 160, 5760, 8232, 8233, 8239, 8287, 12288, 65279}
     \<or> (8192 \<le> c \<and> c \<le> 8202)"

definition trim :: "jsstring \<Rightarrow> jsstring" where
  "trim s = rev (dropWhile isWhiteSpace (rev (dropWhile isWhiteSpace s)))"

section \<open>Numbers: the binary64 products of the thresholds\<close>

text \<open>
  \<open>limit * 1.5\<close>, \<open>limit * 1.3\<close>, \<open>limit * 0.4\<close> and \<open>limit * 1.4\<close> are binary64
  products: the exact product of \<open>limit\<close> and the double nearest to the literal, rounded
  to 53 significant bits, ties to even. They are not the exact decimal products
  (\<open>45 * 1.4\<close> is 62.99999999999999 in JavaScript). A non-negative double \<open>x\<close> is
  held as the integer \<open>x * 2^54\<close>; every value that occurs is such a multiple.
  \<open>limit\<close> is a natural number (the callers pass a positive integer); lengths and
  indices are integers, which binary64 holds exactly (\<open>ofInt\<close>), and \<open>-1\<close> is the
  "not found" of \<open>indexOf\<close>. Exponent overflow is out of reach for the lengths of
  strings and is not modelled.
\<close>

fun bitLength :: "nat \<Rightarrow> nat" where
  "bitLength n = (if n = 0 then 0 else Suc (bitLength (n div 2)))"

declare bitLength.simps [simp del]

definition roundToDouble :: "nat \<Rightarrow> nat" where
  "roundToDouble n =
     (if bitLength n \<le> 53 then n
      else let s = bitLength n - 53;
               q = n div 2 ^ s;
               r = n mod 2 ^ s;
               h = 2 ^ (s - 1)
           in (if h < r \<or> (r = h \<and> odd q) then q + 1 else q) * 2 ^ s)"

definition ofInt :: "int \<Rightarrow> int" where
  "ofInt n = n * 2 ^ 54"

text \<open>The doubles nearest to the literals, as numerators over \<open>2^54\<close>.\<close>

definition lit_1_5 :: nat where
  "lit_1_5 = 27021597764222976"

definition lit_1_3 :: nat where
  "lit_1_3 = 23418718062326580"

definition lit_1_4 :: nat where
  "lit_1_4 = 25220157913274776"

definition lit_0_4 :: nat where
  "lit_0_4 = 7205759403792794"

definition timesLit :: "nat \<Rightarrow> nat \<Rightarrow> int" where
  "timesLit limit lit = int (roundToDouble (limit * lit))"

definition plus5 :: "nat \<Rightarrow> int" where
  "plus5 limit = int (roundToDouble ((limit + 5) * 2 ^ 54))"

section \<open>The abbreviation guard\<close>

text \<open>
  \<open>/\b(Mr|Mrs|Ms|Dr|Sr|Jr|St|Vs|Prof|Gen|Rep|Sen)\./gi\<close> and \<open>/\b([A-Z])\./g\<close>.
  Without the \<open>u\<close> flag a word character is one of \<open>[A-Za-z0-9_]\<close>, and under \<open>i\<close>
  a code unit matches an ASCII letter of the pattern exactly when it is that letter in
  either case (Canonicalize never maps a code unit above 127 to one below 128).
  A matcher is given the code unit before the position (\<open>None\<close> at the start of the
  string) and the rest of the string from the position on; it returns the length of the
  captured group, the period after it being the last code unit of the match.
\<close>

definition isWordChar :: "nat \<Rightarrow> bool" where
  "isWordChar c \<longleftrightarrow>
     (48 \<le> c \<and> c \<le> 57) \<or> (65 \<le> c \<and> c \<le> 90) \<or> c = 95 \<or> (97 \<le> c \<and> c \<le> 122)"

definition wordBoundary :: "nat option \<Rightarrow> jsstring \<Rightarrow> bool" where
  "wordBoundary prev rest \<longleftrightarrow>
     (case prev of None \<Rightarrow> False | Some c \<Rightarrow> isWordChar c)
       \<noteq> (case rest of [] \<Rightarrow> False | c # cs \<Rightarrow> isWordChar c)"

definition canonicalize :: "nat \<Rightarrow> nat" where
  "canonicalize c = (if 97 \<le> c \<and> c \<le> 122 then c - 32 else c)"

fun matchLiteralCI :: "jsstring \<Rightarrow> jsstring \<Rightarrow> bool" where
  "matchLiteralCI [] rest = True"
| "matchLiteralCI (p # ps) [] = False"
| "matchLiteralCI (p # ps) (c # cs) = (canonicalize p = canonicalize c \<and> matchLiteralCI ps cs)"

definition abbreviations :: "jsstring list" where
  "abbreviations = map js [''Mr'', ''Mrs'', ''Ms'', ''Dr'', ''Sr'', ''Jr'', ''St'', ''Vs'',
     ''Prof'', ''Gen'', ''Rep'', ''Sen'']"

definition matchAbbreviation :: "nat option \<Rightarrow> jsstring \<Rightarrow> nat option" where
  "matchAbbreviation prev rest =
     (if wordBoundary prev rest
      then map_option length (List.find (\<lambda>a. matchLiteralCI (a @ [46]) rest) abbreviations)
      else None)"

definition matchInitial :: "nat option \<Rightarrow> jsstring \<Rightarrow> nat option" where
  "matchInitial prev rest =
     (if wordBoundary prev rest
      then (case rest of
              c # d # cs \<Rightarrow> if 65 \<le> c \<and> c \<le> 90 \<and> d = 46 then Some 1 else None
            | _ \<Rightarrow> None)
      else None)"

text \<open>
  \<open>replace(regex, '$1\u0000')\<close> with a global regex: the matches are found left to
  right, each search resuming where the last match ended; a match is replaced by its
  group followed by U+0000, the text between matches is copied.
\<close>

function replacePeriods :: "(nat option \<Rightarrow> jsstring \<Rightarrow> nat option) \<Rightarrow> nat option \<Rightarrow> jsstring \<Rightarrow> jsstring" where
  "replacePeriods m prev [] = []"
| "replacePeriods m prev (c # cs) =
     (case m prev (c # cs) of
        None \<Rightarrow> c # replacePeriods m (Some c) cs
      | Some k \<Rightarrow> take k (c # cs) @ [0] @ replacePeriods m (Some 46) (drop (Suc k) (c # cs)))"
  by pat_completeness auto
termination
  by (relation "measure (\<lambda>(m, prev, s). length s)") auto

definition protect :: "jsstring \<Rightarrow> jsstring" where
  "protect raw = replacePeriods matchInitial None (replacePeriods matchAbbreviation None raw)"

definition restorePeriods :: "jsstring \<Rightarrow> jsstring" where
  "restorePeriods line = map (\<lambda>c. if c = 0 then 46 else c) line"

section \<open>Splitting on a regular expression\<close>

text \<open>
  \<open>String.prototype.split\<close> with a regular expression whose matches depend only on
  the text from the position on (the three separators below look ahead, never behind).
  A matcher returns the length of the match at the start of its argument. The search
  position \<open>q\<close> is the start of the second list, \<open>chunk\<close> is the text since the end
  \<open>p\<close> of the last match. A match that ends at \<open>p\<close> (empty, with an empty chunk) is
  skipped; otherwise the chunk is pushed, then the capture when the regex has one (the
  group of both separator regexes is the whole match), and the search resumes at the
  end of the match. The rest after the last match is pushed at the end.
\<close>

function splitLoop :: "bool \<Rightarrow> (jsstring \<Rightarrow> nat option) \<Rightarrow> jsstring \<Rightarrow> jsstring \<Rightarrow> jsstring list" where
  "splitLoop capture m chunk [] = [chunk]"
| "splitLoop capture m chunk (c # cs) =
     (case m (c # cs) of
        None \<Rightarrow> splitLoop capture m (chunk @ [c]) cs
      | Some k \<Rightarrow>
          if k = 0 \<and> chunk = [] then splitLoop capture m (chunk @ [c]) cs
          else chunk # (if capture then [take k (c # cs)] else [])
                 @ splitLoop capture m [] (drop k (c # cs)))"
  by pat_completeness auto
termination
  by (relation "measure (\<lambda>(capture, m, chunk, s). 2 * length s + (if chunk = [] then 0 else 1))")
    auto

definition jsSplit :: "bool \<Rightarrow> (jsstring \<Rightarrow> nat option) \<Rightarrow> jsstring \<Rightarrow> jsstring list" where
  "jsSplit capture m s =
     (if s = [] then (if m [] = None then [[]] else []) else splitLoop capture m [] s)"

text \<open>\<open>/\r?\n/\<close>\<close>

definition lineBreak :: "jsstring \<Rightarrow> nat option" where
  "lineBreak rest =
     (case rest of
        [] \<Rightarrow> None
      | c # cs \<Rightarrow>
          if c = 13 \<and> (case cs of [] \<Rightarrow> False | d # ds \<Rightarrow> d = 10) then Some 2
          else if c = 10 then Some 1
          else None)"

text \<open>
  The lookahead \<open>(?=\s|$)\<close>: the rest starts with white space or is empty (no \<open>m\<close>
  flag: \<open>$\<close> is the end of the string).
\<close>

definition lookahead :: "jsstring \<Rightarrow> bool" where
  "lookahead rest = (case rest of [] \<Rightarrow> True | c # cs \<Rightarrow> isWhiteSpace c)"

text \<open>
  \<open>/([.!?\uFF01\uFF1F]+)(?=\s|$)/\<close>. The greedy run takes every mark; a shorter run
  is followed by a mark, which is neither white space nor the end, so backtracking
  never succeeds where the longest run fails.
\<close>

definition isMajorMark :: "nat \<Rightarrow> bool" where
  "isMajorMark c \<longleftrightarrow> c \<in> {46, 33, 63, 65281, 65311}"

definition majorSeparator :: "jsstring \<Rightarrow> nat option" where
  "majorSeparator rest =
     (let k = length (takeWhile isMajorMark rest)
      in if 0 < k \<and> lookahead (drop k rest) then Some k else None)"

text \<open>
  \<open>/([,\uFF0C;\uFF1B:\uFF1A]|\s[-\u2013\u2014]+\s|\.\.\.)(?=\s|$)/\<close>: the three
  alternatives in order, each followed by the lookahead. In the second the run of
  dashes is again the longest one, since a shorter run is followed by a dash where
  \<open>\s\<close> is required.
\<close>

definition isMinorMark :: "nat \<Rightarrow> bool" where
  "isMinorMark c \<longleftrightarrow> c \<in> {44, 65292, 59, 65307, 58, 65306}"

definition isDash :: "nat \<Rightarrow> bool" where
  "isDash c \<longleftrightarrow> c \<in> {45, 8211, 8212}"

definition spacedDashes :: "jsstring \<Rightarrow> nat option" where
  "spacedDashes rest =
     (case rest of
        [] \<Rightarrow> None
      | c # cs \<Rightarrow>
          (let h = length (takeWhile isDash cs)
           in if isWhiteSpace c \<and> 0 < h
              then (case drop h cs of
                      [] \<Rightarrow> None
                    | d # ds \<Rightarrow> if isWhiteSpace d \<and> lookahead ds then Some (h + 2) else None)
              else None))"

definition minorSeparator :: "jsstring \<Rightarrow> nat option" where
  "minorSeparator rest =
     (if (case rest of [] \<Rightarrow> False | c # cs \<Rightarrow> isMinorMark c \<and> lookahead cs) then Some 1
      else if spacedDashes rest \<noteq> None then spacedDashes rest
      else if take 3 rest = [46, 46, 46] \<and> lookahead (drop 3 rest) then Some 3
      else None)"

section \<open>The whitespace splitter\<close>

text \<open>
  \<open>lastIndexOf(' ', from)\<close> is the greatest index at most \<open>from\<close> that holds a space,
  \<open>indexOf(' ', from)\<close> the least index at least \<open>from\<close>; both are \<open>-1\<close> when there
  is none.
\<close>

definition lastIndexOf :: "jsstring \<Rightarrow> nat \<Rightarrow> nat \<Rightarrow> int" where
  "lastIndexOf text c from =
     (let rest = dropWhile (\<lambda>x. x \<noteq> c) (rev (take (from + 1) text))
      in if rest = [] then -1 else int (length rest) - 1)"

definition indexOf :: "jsstring \<Rightarrow> nat \<Rightarrow> nat \<Rightarrow> int" where
  "indexOf text c from =
     (let rest = dropWhile (\<lambda>x. x \<noteq> c) (drop from text)
      in if rest = [] then -1 else int (length text - length rest))"

definition findBestSplitIndex :: "jsstring \<Rightarrow> nat \<Rightarrow> int" where
  "findBestSplitIndex text limit =
     (let index = lastIndexOf text 32 limit;
          nextSpace = indexOf text 32 limit
      in if ofInt index < timesLit limit lit_0_4
            \<and> nextSpace \<noteq> -1 \<and> ofInt nextSpace \<le> timesLit limit lit_1_4
         then nextSpace
         else if index = -1
         then (if nextSpace \<noteq> -1 \<and> ofInt nextSpace \<le> timesLit limit lit_1_4
               then nextSpace else -1)
         else index)"

section \<open>The segment processor and the reflow packer\<close>

definition maxLen :: "nat \<Rightarrow> int" where
  "maxLen limit = max (timesLit limit lit_1_5) (plus5 limit)"

fun buildAtoms :: "jsstring list \<Rightarrow> jsstring list" where
  "buildAtoms [] = []"
| "buildAtoms [content] =
     (let combined = trim (content @ []) in if combined \<noteq> [] then [combined] else [])"
| "buildAtoms (content # sep # parts) =
     (let combined = trim (content @ sep)
      in (if combined \<noteq> [] then [combined] else []) @ buildAtoms parts)"

fun maxLength :: "jsstring list \<Rightarrow> nat" where
  "maxLength [] = 0"
| "maxLength (a # as) = max (length a) (maxLength as)"

text \<open>
  The accumulator is passed and returned. A call that never returns is the value
  \<open>None\<close>: when the trimmed tail of the whitespace cut is not shorter than the
  segment, it is the segment itself, and the source calls \<open>processSegment\<close> again
  with the arguments it was called with.
  \<open>reflowLoop\<close> is the \<open>for (const atom of atoms)\<close> loop of \<open>trySplitAndReflow\<close>; it
  returns the running line with the accumulator.
\<close>

function processSegment :: "jsstring \<Rightarrow> nat \<Rightarrow> jsstring list \<Rightarrow> jsstring list option"
  and trySplitAndReflow ::
    "jsstring \<Rightarrow> (jsstring \<Rightarrow> nat option) \<Rightarrow> nat \<Rightarrow> jsstring list \<Rightarrow> (bool \<times> jsstring list) option"
  and reflowLoop ::
    "jsstring list \<Rightarrow> nat \<Rightarrow> jsstring \<Rightarrow> jsstring list \<Rightarrow> (jsstring \<times> jsstring list) option"
where
  "processSegment text limit accumulator =
     (if ofInt (int (length text)) \<le> maxLen limit then Some (accumulator @ [text])
      else case trySplitAndReflow text majorSeparator limit accumulator of
        None \<Rightarrow> None
      | Some (True, acc1) \<Rightarrow> Some acc1
      | Some (False, acc1) \<Rightarrow>
          (case trySplitAndReflow text minorSeparator limit acc1 of
             None \<Rightarrow> None
           | Some (True, acc2) \<Rightarrow> Some acc2
           | Some (False, acc2) \<Rightarrow>
               (let found = findBestSplitIndex text limit;
                    splitIndex = (if found = -1 then int limit else found);
                    head = trim (take (nat splitIndex) text);
                    tail = trim (drop (nat splitIndex) text);
                    acc3 = (if head \<noteq> [] then acc2 @ [head] else acc2)
                in if tail = [] then Some acc3
                   else if length tail < length text then processSegment tail limit acc3
                   else None)))"
| "trySplitAndReflow text separatorRegex limit accumulator =
     (let parts = jsSplit True separatorRegex text
      in if length parts < 3 then Some (False, accumulator)
         else let atoms = buildAtoms parts
              in if length atoms < 2 then Some (False, accumulator)
                 else (case reflowLoop atoms limit [] accumulator of
                         None \<Rightarrow> None
                       | Some (currentLine, acc) \<Rightarrow>
                           Some (True, if currentLine \<noteq> [] then acc @ [currentLine] else acc)))"
| "reflowLoop [] limit currentLine accumulator = Some (currentLine, accumulator)"
| "reflowLoop (atom # atoms) limit currentLine accumulator =
     (if currentLine \<noteq> [] \<and> ofInt (int (length currentLine + 1 + length atom)) \<le> timesLit limit lit_1_3
      then reflowLoop atoms limit
             (currentLine @ (if currentLine \<noteq> [] then [32] else []) @ atom) accumulator
      else let acc1 = (if currentLine \<noteq> [] then accumulator @ [currentLine] else accumulator)
           in if timesLit limit lit_1_5 < ofInt (int (length atom))
              then (case processSegment atom limit acc1 of
                      None \<Rightarrow> None
                    | Some acc2 \<Rightarrow> reflowLoop atoms limit [] acc2)
              else reflowLoop atoms limit atom acc1)"
  by pat_completeness auto

text \<open>
  The loop over the paragraphs and \<open>splitLyrics\<close> itself. \<open>!raw\<close> holds of the empty
  string only.
\<close>

fun processParagraphs :: "jsstring list \<Rightarrow> nat \<Rightarrow> jsstring list \<Rightarrow> jsstring list option" where
  "processParagraphs [] targetLen lines = Some lines"
| "processParagraphs (paragraph # paragraphs) targetLen lines =
     (let trimmed = trim paragraph
      in if trimmed = [] then processParagraphs paragraphs targetLen lines
         else (case processSegment trimmed targetLen lines of
                 None \<Rightarrow> None
               | Some lines' \<Rightarrow> processParagraphs paragraphs targetLen lines'))"

definition splitLyrics :: "jsstring \<Rightarrow> nat \<Rightarrow> jsstring list option" where
  "splitLyrics raw targetLen =
     (if raw = [] then Some []
      else let protectedRaw = protect raw;
               paragraphs = jsSplit False lineBreak protectedRaw
           in map_option (map restorePeriods) (processParagraphs paragraphs targetLen []))"

section \<open>The vocabulary of the claims\<close>

text \<open>
  The vocabulary of the claims: the non-whitespace code units of a string, the content
  of a list of strings (their non-whitespace code units, in order), and the strings that
  are non-empty and equal to their own trim.
\<close>

definition nonWhiteSpace :: "jsstring \<Rightarrow> jsstring" where
  "nonWhiteSpace s = filter (\<lambda>c. \<not> isWhiteSpace c) s"

definition contents :: "jsstring list \<Rightarrow> jsstring" where
  "contents ls = concat (map nonWhiteSpace ls)"

definition isLine :: "jsstring \<Rightarrow> bool" where
  "isLine s \<longleftrightarrow> s \<noteq> [] \<and> trim s = s"

text \<open>
  A line is good for a limit when it is non-empty, equal to its own trim, and no longer
  than \<open>maxLen\<close>.
\<close>

definition goodLine :: "nat \<Rightarrow> jsstring \<Rightarrow> bool" where
  "goodLine limit l \<longleftrightarrow> isLine l \<and> ofInt (int (length l)) \<le> maxLen limit"

text \<open>The input of the hyphen example.\<close>

definition hyphenExample :: jsstring where
  "hyphenExample = js ''semi-detached house - built in 1990''"

section \<open>Termination of the segment processor\<close>

text \<open>
  Termination: the parts of a split concatenate to the text, the atoms are trimmed
  pairs of parts, and at least two of them are non-empty, so each atom is shorter than
  the text; the tail is passed on only when it is shorter.
\<close>

lemma length_trim_le: "length (trim s) \<le> length s"
  unfolding trim_def
  by (metis length_dropWhile_le length_rev order_trans)

lemma splitLoop_concat: "concat (splitLoop True m chunk rest) = chunk @ rest"
  by (induction True m chunk rest rule: splitLoop.induct)
     (auto split: option.splits)

lemma jsSplit_concat: "concat (jsSplit True m s) = s"
  by (simp add: jsSplit_def splitLoop_concat)

lemma buildAtoms_nonempty: "a \<in> set (buildAtoms parts) \<Longrightarrow> a \<noteq> []"
  by (induction parts rule: buildAtoms.induct) (auto simp: Let_def split: if_splits)

lemma buildAtoms_total_length:
  "sum_list (map length (buildAtoms parts)) \<le> length (concat parts)"
proof (induction parts rule: buildAtoms.induct)
  case 1
  then show ?case by simp
next
  case (2 content)
  then show ?case using length_trim_le [of content] by (simp add: Let_def)
next
  case (3 content sep parts)
  then show ?case using length_trim_le [of "content @ sep"] by (simp add: Let_def)
qed

lemma member_shorter_than_sum:
  assumes "2 \<le> length xs" and "\<forall>x\<in>set xs. x \<noteq> []" and "a \<in> set xs"
  shows "length a < sum_list (map length xs)"
proof -
  from assms(3) obtain ys zs where xs: "xs = ys @ a # zs"
    by (auto dest: split_list)
  have pos: "\<And>us::'a list list. us \<noteq> [] \<Longrightarrow> \<forall>x\<in>set us. x \<noteq> [] \<Longrightarrow> 0 < sum_list (map length us)"
    by (case_tac us) auto
  from assms(1) xs have "ys @ zs \<noteq> []" by auto
  moreover from assms(2) xs have "\<forall>x\<in>set (ys @ zs). x \<noteq> []" by auto
  ultimately have "0 < sum_list (map length (ys @ zs))" by (rule pos)
  with xs show ?thesis by simp
qed

lemma maxLength_less:
  "xs \<noteq> [] \<Longrightarrow> (\<And>a. a \<in> set xs \<Longrightarrow> length a < n) \<Longrightarrow> maxLength xs < n"
  by (induction xs) (auto, case_tac xs, auto)

lemma atoms_shorter:
  assumes "\<not> length (buildAtoms (jsSplit True m text)) < 2"
    and "a \<in> set (buildAtoms (jsSplit True m text))"
  shows "length a < length text"
proof -
  let ?atoms = "buildAtoms (jsSplit True m text)"
  have "length a < sum_list (map length ?atoms)"
    using assms buildAtoms_nonempty by (intro member_shorter_than_sum) auto
  also have "\<dots> \<le> length (concat (jsSplit True m text))"
    by (rule buildAtoms_total_length)
  finally show ?thesis by (simp add: jsSplit_concat)
qed

lemma maxLength_atoms:
  assumes "\<not> length (buildAtoms (jsSplit True m text)) < 2"
  shows "maxLength (buildAtoms (jsSplit True m text)) < length text"
proof (rule maxLength_less)
  show "buildAtoms (jsSplit True m text) \<noteq> []" using assms by auto
qed (rule atoms_shorter [OF assms])

termination processSegment
proof (relation "inv_image (less_than <*lex*> less_than)
           (\<lambda>x. case x of
                  Inl (text, limit, acc) \<Rightarrow> (length text, 1)
                | Inr (Inl (text, sep, limit, acc)) \<Rightarrow> (length text, 0)
                | Inr (Inr (atoms, limit, cur, acc)) \<Rightarrow> (maxLength atoms, length atoms + 2))",
    goal_cases)
  case 1
  show ?case by (intro wf_inv_image wf_lex_prod wf_less_than)
qed (auto simp: maxLength_atoms max_def)

section \<open>Evaluation on concrete inputs\<close>

text \<open>
  The recursive equations of the segment processor are applied on demand only; the
  definitions below are what the simplifier unfolds to run the model on a literal.
\<close>

declare processSegment.simps [simp del] trySplitAndReflow.simps [simp del]

lemmas eval_defs =
  js_def isWhiteSpace_def trim_def roundToDouble_def ofInt_def lit_1_5_def lit_1_3_def
  lit_1_4_def lit_0_4_def timesLit_def plus5_def isWordChar_def wordBoundary_def
  canonicalize_def abbreviations_def matchAbbreviation_def matchInitial_def protect_def
  restorePeriods_def jsSplit_def lineBreak_def lookahead_def isMajorMark_def
  majorSeparator_def isMinorMark_def isDash_def spacedDashes_def minorSeparator_def
  lastIndexOf_def indexOf_def findBestSplitIndex_def maxLen_def splitLyrics_def Let_def
  bitLength.simps processSegment.simps trySplitAndReflow.simps

section \<open>Bounds on the rounded products\<close>

text \<open>
  Rounding to 53 bits moves a number by at most its \<open>2^-53\<close>-th part; this orders the
  thresholds without computing them.
\<close>

lemma bitLength_upper: "n < 2 ^ bitLength n"
proof (induction n rule: bitLength.induct)
  case (1 n)
  show ?case
  proof (cases "n = 0")
    case True
    then show ?thesis by (simp add: bitLength.simps)
  next
    case False
    with 1 have "n div 2 < 2 ^ bitLength (n div 2)" by simp
    then have "n < 2 * 2 ^ bitLength (n div 2)" by linarith
    with False show ?thesis by (simp add: bitLength.simps [of n])
  qed
qed

lemma bitLength_lower: "0 < n \<Longrightarrow> 2 ^ (bitLength n - 1) \<le> n"
proof (induction n rule: bitLength.induct)
  case (1 n)
  then have n: "n \<noteq> 0" by simp
  show ?case
  proof (cases "n div 2 = 0")
    case True
    with n show ?thesis by (simp add: bitLength.simps [of n] bitLength.simps [of 0])
  next
    case False
    with 1 n have "2 ^ (bitLength (n div 2) - 1) \<le> n div 2" by simp
    moreover from False have "0 < bitLength (n div 2)" by (simp add: bitLength.simps [of "n div 2"])
    ultimately have "2 ^ bitLength (n div 2) \<le> 2 * (n div 2)"
      by (cases "bitLength (n div 2)") auto
    with n show ?thesis by (simp add: bitLength.simps [of n])
  qed
qed

lemma roundToDouble_bounds:
  "n * (2 ^ 53 - 1) \<le> roundToDouble n * 2 ^ 53 \<and> roundToDouble n * 2 ^ 53 \<le> n * (2 ^ 53 + 1)"
proof (cases "bitLength n \<le> 53")
  case True
  then show ?thesis by (simp add: roundToDouble_def)
next
  case False
  define s where "s = bitLength n - 53"
  define h :: nat where "h = 2 ^ (s - 1)"
  define r where "r = n mod 2 ^ s"
  define d where "d = (n div 2 ^ s) * 2 ^ s"
  from False have s: "0 < s" and bl: "bitLength n - 1 = (s - 1) + 53"
    by (simp_all add: s_def)
  from s have two: "(2::nat) ^ s = 2 * h"
    by (cases s) (simp_all add: h_def)
  have n: "n = d + r" unfolding d_def r_def by (rule div_mult_mod_eq [symmetric])
  have hpos: "0 < h" by (simp add: h_def)
  have r: "r < 2 * h" using two hpos by (simp add: r_def)
  from False have "0 < n" by (cases "n = 0") (simp_all add: bitLength.simps [of 0])
  then have "2 ^ (bitLength n - 1) \<le> n" by (rule bitLength_lower)
  moreover have "(2::nat) ^ (bitLength n - 1) = h * 2 ^ 53"
    unfolding bl h_def by (rule power_add)
  ultimately have h: "h * 2 ^ 53 \<le> n" by (simp only:)
  have rd: "roundToDouble n =
      (if h < r \<or> (r = h \<and> odd (n div 2 ^ s)) then n div 2 ^ s + 1 else n div 2 ^ s) * 2 ^ s"
    using False by (simp only: roundToDouble_def Let_def s_def h_def r_def if_False)
  have up: "(n div 2 ^ s + 1) * 2 ^ s = d + 2 * h"
    unfolding d_def by (simp only: two add_mult_distrib mult_1)
  show ?thesis
  proof (cases "h < r \<or> (r = h \<and> odd (n div 2 ^ s))")
    case True
    then have "h \<le> r" by auto
    moreover have "roundToDouble n = d + 2 * h"
      using rd [unfolded if_P [OF True]] up by simp
    ultimately show ?thesis using n r h by simp
  next
    case False
    then have "r \<le> h" by auto
    moreover have "roundToDouble n = d"
      using rd [unfolded if_not_P [OF False]] by (simp add: d_def)
    ultimately show ?thesis using n h by simp
  qed
qed

lemma limit_le_times_1_5: "ofInt (int limit) \<le> timesLit limit lit_1_5"
proof -
  have "(limit * lit_1_5) * (2 ^ 53 - 1) \<le> roundToDouble (limit * lit_1_5) * 2 ^ 53"
    using roundToDouble_bounds by blast
  then have "limit * 2 ^ 54 \<le> roundToDouble (limit * lit_1_5)"
    by (simp add: lit_1_5_def)
  then show ?thesis
    unfolding ofInt_def timesLit_def by (metis of_nat_le_iff of_nat_mult of_nat_numeral of_nat_power)
qed

lemma times_le_times_1_5:
  assumes "lit * (2 ^ 53 + 1) \<le> lit_1_5 * (2 ^ 53 - 1)"
  shows "timesLit limit lit \<le> timesLit limit lit_1_5"
proof -
  have "roundToDouble (limit * lit) * 2 ^ 53 \<le> (limit * lit) * (2 ^ 53 + 1)"
    using roundToDouble_bounds by blast
  also have "\<dots> = limit * (lit * (2 ^ 53 + 1))" by simp
  also have "\<dots> \<le> limit * (lit_1_5 * (2 ^ 53 - 1))"
    using assms by (rule mult_le_mono2)
  also have "\<dots> = (limit * lit_1_5) * (2 ^ 53 - 1)" by simp
  also have "\<dots> \<le> roundToDouble (limit * lit_1_5) * 2 ^ 53"
    using roundToDouble_bounds by blast
  finally show ?thesis by (simp add: timesLit_def)
qed

lemma times_1_3_le: "timesLit limit lit_1_3 \<le> timesLit limit lit_1_5"
  by (rule times_le_times_1_5) (simp add: lit_1_3_def lit_1_5_def)

lemma times_1_4_le: "timesLit limit lit_1_4 \<le> timesLit limit lit_1_5"
  by (rule times_le_times_1_5) (simp add: lit_1_4_def lit_1_5_def)

lemma times_1_5_le_maxLen: "timesLit limit lit_1_5 \<le> maxLen limit"
  by (simp add: maxLen_def)

section \<open>Trimming and content\<close>

lemma filter_dropWhile_not: "filter (\<lambda>c. \<not> P c) (dropWhile P xs) = filter (\<lambda>c. \<not> P c) xs"
  by (induction xs) auto

lemma nonWhiteSpace_trim: "nonWhiteSpace (trim s) = nonWhiteSpace s"
proof -
  have "filter (\<lambda>c. \<not> isWhiteSpace c) (rev (dropWhile isWhiteSpace (rev (dropWhile isWhiteSpace s))))
      = rev (filter (\<lambda>c. \<not> isWhiteSpace c) (dropWhile isWhiteSpace (rev (dropWhile isWhiteSpace s))))"
    by (rule rev_filter [symmetric])
  also have "\<dots> = rev (filter (\<lambda>c. \<not> isWhiteSpace c) (rev (dropWhile isWhiteSpace s)))"
    by (simp only: filter_dropWhile_not)
  also have "\<dots> = filter (\<lambda>c. \<not> isWhiteSpace c) (dropWhile isWhiteSpace s)"
    by (simp add: rev_filter [symmetric])
  also have "\<dots> = filter (\<lambda>c. \<not> isWhiteSpace c) s"
    by (rule filter_dropWhile_not)
  finally show ?thesis by (simp add: nonWhiteSpace_def trim_def)
qed

lemma nonWhiteSpace_append [simp]: "nonWhiteSpace (a @ b) = nonWhiteSpace a @ nonWhiteSpace b"
  by (simp add: nonWhiteSpace_def)

lemma nonWhiteSpace_Nil [simp]: "nonWhiteSpace [] = []"
  by (simp add: nonWhiteSpace_def)

lemma contents_simps [simp]:
  "contents [] = []"
  "contents (l # ls) = nonWhiteSpace l @ contents ls"
  "contents (ks @ ls) = contents ks @ contents ls"
  by (simp_all add: contents_def)

lemma trim_Nil_nonWhiteSpace: "trim s = [] \<Longrightarrow> nonWhiteSpace s = []"
  using nonWhiteSpace_trim [of s] by simp

lemma trim_Nil [simp]: "trim [] = []"
  by (simp add: trim_def)

lemma last_dropWhile: "dropWhile P xs \<noteq> [] \<Longrightarrow> last (dropWhile P xs) = last xs"
  by (induction xs) (auto split: if_splits)

lemma trim_ends:
  assumes "trim s \<noteq> []"
  shows "\<not> isWhiteSpace (hd (trim s)) \<and> \<not> isWhiteSpace (last (trim s))"
proof -
  define u where "u = dropWhile isWhiteSpace s"
  define v where "v = dropWhile isWhiteSpace (rev u)"
  have t: "trim s = rev v" by (simp add: trim_def u_def v_def)
  with assms have v: "v \<noteq> []" by simp
  then have u: "u \<noteq> []" by (auto simp: v_def)
  have "\<not> isWhiteSpace (hd v)" using v unfolding v_def by (rule hd_dropWhile)
  moreover have "last v = last (rev u)" using v unfolding v_def by (rule last_dropWhile)
  moreover have "\<not> isWhiteSpace (hd u)" using u unfolding u_def by (rule hd_dropWhile)
  ultimately show ?thesis using u v by (simp add: t hd_rev last_rev)
qed

lemma isLine_iff: "isLine s \<longleftrightarrow> s \<noteq> [] \<and> \<not> isWhiteSpace (hd s) \<and> \<not> isWhiteSpace (last s)"
proof
  assume "isLine s"
  then have "s \<noteq> []" and "trim s = s" by (simp_all add: isLine_def)
  with trim_ends [of s] show "s \<noteq> [] \<and> \<not> isWhiteSpace (hd s) \<and> \<not> isWhiteSpace (last s)"
    by simp
next
  assume a: "s \<noteq> [] \<and> \<not> isWhiteSpace (hd s) \<and> \<not> isWhiteSpace (last s)"
  then have "dropWhile isWhiteSpace s = s" by (cases s) auto
  moreover from a have "dropWhile isWhiteSpace (rev s) = rev s"
    by (cases "rev s") (auto simp: last_rev [symmetric] simp del: last_rev)
  ultimately show "isLine s" using a by (simp add: isLine_def trim_def)
qed

lemma isLine_trim: "trim s \<noteq> [] \<Longrightarrow> isLine (trim s)"
  using trim_ends [of s] by (simp add: isLine_iff)

lemma isLine_join: "isLine a \<Longrightarrow> isLine b \<Longrightarrow> isLine (a @ [32] @ b)"
  by (simp add: isLine_iff)

lemma isLine_not_blank: "isLine s \<Longrightarrow> \<not> list_all isWhiteSpace s"
  by (cases s) (auto simp: isLine_iff)

lemma buildAtoms_isLine: "a \<in> set (buildAtoms parts) \<Longrightarrow> isLine a"
  by (induction parts rule: buildAtoms.induct)
     (auto simp: Let_def isLine_trim split: if_splits)

lemma contents_buildAtoms: "contents (buildAtoms parts) = nonWhiteSpace (concat parts)"
proof (induction parts rule: buildAtoms.induct)
  case 1
  show ?case by simp
next
  case (2 c)
  show ?case
    using nonWhiteSpace_trim [of c] by (cases "trim c = []") (simp_all add: Let_def)
next
  case (3 c sep parts)
  then show ?case
    using nonWhiteSpace_trim [of "c @ sep"] by (cases "trim (c @ sep) = []") (simp_all add: Let_def)
qed

lemma length_trim_take: "length (trim (take k s)) \<le> k"
  using length_trim_le [of "take k s"] by simp

lemma length_trim_drop: "0 < k \<Longrightarrow> s \<noteq> [] \<Longrightarrow> length (trim (drop k s)) < length s"
  using length_trim_le [of "drop k s"] by (cases s) auto

lemma ofInt_mono: "a \<le> b \<Longrightarrow> ofInt a \<le> ofInt b"
  by (simp add: ofInt_def)

section \<open>The whitespace cut\<close>

lemma lastIndexOf_range: "- 1 \<le> lastIndexOf text c from \<and> lastIndexOf text c from \<le> int from"
proof -
  let ?rest = "dropWhile (\<lambda>x. x \<noteq> c) (rev (take (from + 1) text))"
  have "length ?rest \<le> length (rev (take (from + 1) text))" by (rule length_dropWhile_le)
  then have "length ?rest \<le> from + 1" by simp
  then show ?thesis by (cases "?rest = []") (simp_all add: lastIndexOf_def Let_def)
qed

lemma lastIndexOf_zero:
  assumes "lastIndexOf text c from = 0"
  shows "text \<noteq> [] \<and> hd text = c"
proof -
  let ?xs = "rev (take (from + 1) text)"
  let ?rest = "dropWhile (\<lambda>x. x \<noteq> c) ?xs"
  from assms have ne: "?rest \<noteq> []" and len: "length ?rest = 1"
    by (auto simp: lastIndexOf_def Let_def split: if_splits)
  from ne have "\<not> hd ?rest \<noteq> c" by (rule hd_dropWhile)
  moreover from ne have "last ?rest = last ?xs" by (rule last_dropWhile)
  moreover from len obtain x where "?rest = [x]" by (auto simp: length_Suc_conv)
  then have "hd ?rest = last ?rest" by simp
  moreover from ne have t: "text \<noteq> []" by auto
  then have "last ?xs = hd text" by (cases "text") (simp_all add: last_rev)
  ultimately show ?thesis using t by simp
qed

lemma indexOf_range: "indexOf text c from = - 1 \<or> int from \<le> indexOf text c from"
proof -
  let ?rest = "dropWhile (\<lambda>x. x \<noteq> c) (drop from text)"
  have "length ?rest \<le> length (drop from text)" by (rule length_dropWhile_le)
  then have "?rest \<noteq> [] \<Longrightarrow> from + length ?rest \<le> length text" by (cases "from < length text") auto
  then show ?thesis by (cases "?rest = []") (auto simp: indexOf_def Let_def)
qed

lemma findBestSplitIndex_cases:
  assumes "0 < limit"
  shows "findBestSplitIndex text limit = - 1
     \<or> (0 \<le> findBestSplitIndex text limit
         \<and> ofInt (findBestSplitIndex text limit) \<le> timesLit limit lit_1_5
         \<and> (findBestSplitIndex text limit = 0 \<longrightarrow> text \<noteq> [] \<and> hd text = 32))"
proof -
  let ?index = "lastIndexOf text 32 limit" and ?next = "indexOf text 32 limit"
  have idx: "?index = - 1 \<or> (0 \<le> ?index \<and> ofInt ?index \<le> timesLit limit lit_1_5
      \<and> (?index = 0 \<longrightarrow> text \<noteq> [] \<and> hd text = 32))"
  proof (cases "?index = - 1")
    case False
    with lastIndexOf_range [of "text" 32 limit] have "0 \<le> ?index" and "?index \<le> int limit" by auto
    from this(2) have "ofInt ?index \<le> ofInt (int limit)" by (rule ofInt_mono)
    also have "\<dots> \<le> timesLit limit lit_1_5" by (rule limit_le_times_1_5)
    finally show ?thesis using \<open>0 \<le> ?index\<close> lastIndexOf_zero [of "text" 32 limit] by blast
  qed simp
  have nxt: "?next \<noteq> - 1 \<Longrightarrow> ofInt ?next \<le> timesLit limit lit_1_4 \<Longrightarrow>
      0 < ?next \<and> ofInt ?next \<le> timesLit limit lit_1_5"
    using indexOf_range [of "text" 32 limit] assms times_1_4_le [of limit] by auto
  show ?thesis
    unfolding findBestSplitIndex_def Let_def using idx nxt by (auto split: if_splits)
qed

lemma cut_index:
  assumes "0 < limit" and "isLine text"
  shows "0 < nat (if findBestSplitIndex text limit = - 1 then int limit
                  else findBestSplitIndex text limit)
     \<and> ofInt (if findBestSplitIndex text limit = - 1 then int limit
               else findBestSplitIndex text limit) \<le> timesLit limit lit_1_5"
proof (cases "findBestSplitIndex text limit = - 1")
  case True
  with assms(1) limit_le_times_1_5 [of limit] show ?thesis by simp
next
  case False
  from assms(2) have "text \<noteq> []" and "\<not> isWhiteSpace (hd text)" by (simp_all add: isLine_iff)
  moreover have "isWhiteSpace 32" by (simp add: isWhiteSpace_def)
  ultimately have "\<not> (text \<noteq> [] \<and> hd text = 32)" by auto
  with False findBestSplitIndex_cases [OF assms(1), of "text"] show ?thesis by auto
qed

section \<open>What the segment processor appends\<close>

text \<open>
  By induction on the length of the segment: for a positive limit and a segment that
  is a line, \<open>processSegment\<close> returns, it appends lines only, the lines are good, and
  their content is the content of the segment. The loop of the packer is handled first,
  for any atoms whose oversized members satisfy the statement.
\<close>

lemma goodLine_short: "isLine l \<Longrightarrow> ofInt (int (length l)) \<le> timesLit limit lit_1_5 \<Longrightarrow> goodLine limit l"
  using times_1_5_le_maxLen [of limit] by (simp add: goodLine_def)

lemma nonWhiteSpace_space [simp]: "nonWhiteSpace (32 # s) = nonWhiteSpace s"
  by (simp add: nonWhiteSpace_def isWhiteSpace_def)

lemma reflowLoop_spec:
  assumes "\<And>a. a \<in> set atoms \<Longrightarrow> timesLit limit lit_1_5 < ofInt (int (length a)) \<Longrightarrow>
      \<exists>ls. (\<forall>acc. processSegment a limit acc = Some (acc @ ls))
         \<and> contents ls = nonWhiteSpace a \<and> list_all (goodLine limit) ls"
    and "\<And>a. a \<in> set atoms \<Longrightarrow> isLine a"
    and "cur = [] \<or> (isLine cur \<and> ofInt (int (length cur)) \<le> timesLit limit lit_1_5)"
  shows "\<exists>cur' ls. (\<forall>acc. reflowLoop atoms limit cur acc = Some (cur', acc @ ls))
     \<and> contents ls @ nonWhiteSpace cur' = nonWhiteSpace cur @ contents atoms
     \<and> list_all (goodLine limit) ls
     \<and> (cur' = [] \<or> (isLine cur' \<and> ofInt (int (length cur')) \<le> timesLit limit lit_1_5))"
  using assms
proof (induction atoms arbitrary: cur)
  case Nil
  then show ?case by (intro exI [of _ cur] exI [of _ "[]"]) simp
next
  case (Cons atom atoms)
  have atom: "isLine atom" using Cons.prems(2) by simp
  have rest1: "\<And>a. a \<in> set atoms \<Longrightarrow> timesLit limit lit_1_5 < ofInt (int (length a)) \<Longrightarrow>
      \<exists>ls. (\<forall>acc. processSegment a limit acc = Some (acc @ ls))
         \<and> contents ls = nonWhiteSpace a \<and> list_all (goodLine limit) ls"
    using Cons.prems(1) by simp
  have rest2: "\<And>a. a \<in> set atoms \<Longrightarrow> isLine a" using Cons.prems(2) by simp
  define flushed where "flushed = (if cur \<noteq> [] then [cur] else [])"
  have flushed: "list_all (goodLine limit) flushed" "contents flushed = nonWhiteSpace cur"
    "\<And>acc. (if cur \<noteq> [] then acc @ [cur] else acc) = acc @ flushed"
    using Cons.prems(3) by (auto simp: flushed_def goodLine_short)
  show ?case
  proof (cases "cur \<noteq> [] \<and> ofInt (int (length cur + 1 + length atom)) \<le> timesLit limit lit_1_3")
    case True
    let ?joined = "cur @ [32] @ atom"
    from True Cons.prems(3) have "isLine cur" by simp
    then have "isLine ?joined" using atom by (rule isLine_join)
    moreover have "ofInt (int (length ?joined)) \<le> timesLit limit lit_1_5"
      using True times_1_3_le [of limit] by (simp add: add.commute)
    ultimately obtain cur' ls where
      run: "\<And>acc. reflowLoop atoms limit ?joined acc = Some (cur', acc @ ls)"
      and rest: "contents ls @ nonWhiteSpace cur' = nonWhiteSpace ?joined @ contents atoms"
        "list_all (goodLine limit) ls"
        "cur' = [] \<or> (isLine cur' \<and> ofInt (int (length cur')) \<le> timesLit limit lit_1_5)"
      using Cons.IH [OF rest1 rest2, of ?joined] by blast
    from True run have "\<And>acc. reflowLoop (atom # atoms) limit cur acc = Some (cur', acc @ ls)"
      by simp
    with rest show ?thesis by (intro exI [of _ cur'] exI [of _ ls]) simp
  next
    case False
    show ?thesis
    proof (cases "timesLit limit lit_1_5 < ofInt (int (length atom))")
      case huge: True
      then obtain ls1 where
        seg: "\<And>acc. processSegment atom limit acc = Some (acc @ ls1)"
        and ls1: "contents ls1 = nonWhiteSpace atom" "list_all (goodLine limit) ls1"
        using Cons.prems(1) [of atom] by auto
      obtain cur' ls2 where
        run: "\<And>acc. reflowLoop atoms limit [] acc = Some (cur', acc @ ls2)"
        and rest: "contents ls2 @ nonWhiteSpace cur' = nonWhiteSpace [] @ contents atoms"
          "list_all (goodLine limit) ls2"
          "cur' = [] \<or> (isLine cur' \<and> ofInt (int (length cur')) \<le> timesLit limit lit_1_5)"
        using Cons.IH [OF rest1 rest2, of "[]"] by blast
      have "\<And>acc. reflowLoop (atom # atoms) limit cur acc
          = Some (cur', acc @ (flushed @ ls1 @ ls2))"
        unfolding reflowLoop.simps if_not_P [OF False] Let_def flushed(3) if_P [OF huge]
        by (simp add: seg run)
      with rest ls1 flushed show ?thesis
        by (intro exI [of _ cur'] exI [of _ "flushed @ ls1 @ ls2"]) simp
    next
      case small: False
      then have "ofInt (int (length atom)) \<le> timesLit limit lit_1_5" by simp
      with atom obtain cur' ls2 where
        run: "\<And>acc. reflowLoop atoms limit atom acc = Some (cur', acc @ ls2)"
        and rest: "contents ls2 @ nonWhiteSpace cur' = nonWhiteSpace atom @ contents atoms"
          "list_all (goodLine limit) ls2"
          "cur' = [] \<or> (isLine cur' \<and> ofInt (int (length cur')) \<le> timesLit limit lit_1_5)"
        using Cons.IH [OF rest1 rest2, of atom] by blast
      have "\<And>acc. reflowLoop (atom # atoms) limit cur acc = Some (cur', acc @ (flushed @ ls2))"
        unfolding reflowLoop.simps if_not_P [OF False] Let_def flushed(3) if_not_P [OF small]
        by (simp add: run)
      with rest flushed show ?thesis
        by (intro exI [of _ cur'] exI [of _ "flushed @ ls2"]) simp
    qed
  qed
qed

lemma trySplitAndReflow_spec:
  assumes "\<And>a. length a < length seg \<Longrightarrow> isLine a \<Longrightarrow>
      \<exists>ls. (\<forall>acc. processSegment a limit acc = Some (acc @ ls))
         \<and> contents ls = nonWhiteSpace a \<and> list_all (goodLine limit) ls"
  shows "(\<forall>acc. trySplitAndReflow seg m limit acc = Some (False, acc))
     \<or> (\<exists>ls. (\<forall>acc. trySplitAndReflow seg m limit acc = Some (True, acc @ ls))
           \<and> contents ls = nonWhiteSpace seg \<and> list_all (goodLine limit) ls)"
proof -
  let ?parts = "jsSplit True m seg"
  let ?atoms = "buildAtoms ?parts"
  show ?thesis
  proof (cases "length ?parts < 3 \<or> length ?atoms < 2")
    case True
    then have "\<And>acc. trySplitAndReflow seg m limit acc = Some (False, acc)"
      by (auto simp: trySplitAndReflow.simps Let_def)
    then show ?thesis by blast
  next
    case False
    then have many: "\<not> length ?atoms < 2" by simp
    have "\<And>a. a \<in> set ?atoms \<Longrightarrow> timesLit limit lit_1_5 < ofInt (int (length a)) \<Longrightarrow>
        \<exists>ls. (\<forall>acc. processSegment a limit acc = Some (acc @ ls))
           \<and> contents ls = nonWhiteSpace a \<and> list_all (goodLine limit) ls"
      using assms atoms_shorter [OF many] buildAtoms_isLine by blast
    moreover have "\<And>a. a \<in> set ?atoms \<Longrightarrow> isLine a" by (rule buildAtoms_isLine)
    ultimately obtain cur' ls where
      run: "\<And>acc. reflowLoop ?atoms limit [] acc = Some (cur', acc @ ls)"
      and rest: "contents ls @ nonWhiteSpace cur' = nonWhiteSpace [] @ contents ?atoms"
        "list_all (goodLine limit) ls"
        "cur' = [] \<or> (isLine cur' \<and> ofInt (int (length cur')) \<le> timesLit limit lit_1_5)"
      using reflowLoop_spec [of ?atoms limit "[]"] by blast
    define flushed where "flushed = (if cur' \<noteq> [] then [cur'] else [])"
    have flushed: "list_all (goodLine limit) flushed" "contents flushed = nonWhiteSpace cur'"
      "\<And>acc. (if cur' \<noteq> [] then acc @ [cur'] else acc) = acc @ flushed"
      using rest(3) by (auto simp: flushed_def goodLine_short)
    have "\<And>acc. trySplitAndReflow seg m limit acc = Some (True, acc @ (ls @ flushed))"
      using False by (simp add: trySplitAndReflow.simps Let_def run flushed(3))
    moreover have "contents (ls @ flushed) = nonWhiteSpace seg"
      using rest(1) flushed(2) by (simp add: contents_buildAtoms jsSplit_concat)
    moreover have "list_all (goodLine limit) (ls @ flushed)"
      using rest(2) flushed(1) by simp
    ultimately show ?thesis by blast
  qed
qed

lemma processSegment_spec:
  assumes "0 < limit" and "isLine seg"
  shows "\<exists>ls. (\<forall>acc. processSegment seg limit acc = Some (acc @ ls))
     \<and> contents ls = nonWhiteSpace seg \<and> list_all (goodLine limit) ls"
  using assms(2)
proof (induction seg rule: measure_induct_rule [where f = length])
  case (less seg)
  note IH = less.IH
  show ?case
  proof (cases "ofInt (int (length seg)) \<le> maxLen limit")
    case True
    then have "\<And>acc. processSegment seg limit acc = Some (acc @ [seg])"
      by (simp add: processSegment.simps)
    moreover have "goodLine limit seg" using True less.prems by (simp add: goodLine_def)
    ultimately show ?thesis by (intro exI [of _ "[seg]"]) simp
  next
    case long: False
    consider
      (major) ls where "\<And>acc. trySplitAndReflow seg majorSeparator limit acc = Some (True, acc @ ls)"
        "contents ls = nonWhiteSpace seg" "list_all (goodLine limit) ls"
      | (minor) ls where "\<And>acc. trySplitAndReflow seg majorSeparator limit acc = Some (False, acc)"
        "\<And>acc. trySplitAndReflow seg minorSeparator limit acc = Some (True, acc @ ls)"
        "contents ls = nonWhiteSpace seg" "list_all (goodLine limit) ls"
      | (space) "\<And>acc. trySplitAndReflow seg majorSeparator limit acc = Some (False, acc)"
        "\<And>acc. trySplitAndReflow seg minorSeparator limit acc = Some (False, acc)"
      using trySplitAndReflow_spec [of seg limit majorSeparator, OF IH]
        trySplitAndReflow_spec [of seg limit minorSeparator, OF IH]
      by blast
    then show ?thesis
    proof cases
      case major
      from long major(1) have "\<And>acc. processSegment seg limit acc = Some (acc @ ls)"
        by (simp add: processSegment.simps)
      with major(2,3) show ?thesis by blast
    next
      case minor
      from long minor(1,2) have "\<And>acc. processSegment seg limit acc = Some (acc @ ls)"
        by (simp add: processSegment.simps)
      with minor(3,4) show ?thesis by blast
    next
      case space
      define k where "k = nat (if findBestSplitIndex seg limit = - 1 then int limit
        else findBestSplitIndex seg limit)"
      define head where "head = trim (take k seg)"
      define tail where "tail = trim (drop k seg)"
      define pushed where "pushed = (if head \<noteq> [] then [head] else [])"
      from cut_index [OF assms(1) less.prems]
      have k: "0 < k" and kb: "ofInt (int k) \<le> timesLit limit lit_1_5"
        by (auto simp: k_def split: if_splits)
      from less.prems have ne: "seg \<noteq> []" by (simp add: isLine_def)
      have short: "length tail < length seg"
        unfolding tail_def using k ne by (rule length_trim_drop)
      have "int (length head) \<le> int k" by (simp add: head_def length_trim_take)
      then have "ofInt (int (length head)) \<le> ofInt (int k)" by (rule ofInt_mono)
      with kb have hb: "ofInt (int (length head)) \<le> timesLit limit lit_1_5" by simp
      have pushed: "list_all (goodLine limit) pushed" "contents pushed = nonWhiteSpace head"
        "\<And>acc. (if head \<noteq> [] then acc @ [head] else acc) = acc @ pushed"
        using hb isLine_trim [of "take k seg"] by (auto simp: pushed_def head_def goodLine_short)
      have whole: "nonWhiteSpace head @ nonWhiteSpace tail = nonWhiteSpace seg"
        unfolding head_def tail_def nonWhiteSpace_trim nonWhiteSpace_append [symmetric]
        by simp
      have step: "\<And>acc. processSegment seg limit acc =
          (if tail = [] then Some (acc @ pushed) else processSegment tail limit (acc @ pushed))"
        using long short
        by (simp add: processSegment.simps [of seg] space Let_def k_def [symmetric]
            head_def [symmetric] tail_def [symmetric] pushed_def)
      show ?thesis
      proof (cases "tail = []")
        case True
        with step have "\<And>acc. processSegment seg limit acc = Some (acc @ pushed)" by simp
        moreover from True whole pushed(2) have "contents pushed = nonWhiteSpace seg" by simp
        ultimately show ?thesis using pushed(1) by blast
      next
        case False
        then have "isLine tail" unfolding tail_def by (rule isLine_trim)
        with IH [OF short] obtain ls where
          run: "\<And>acc. processSegment tail limit acc = Some (acc @ ls)"
          and ls: "contents ls = nonWhiteSpace tail" "list_all (goodLine limit) ls"
          by blast
        from False step run
        have "\<And>acc. processSegment seg limit acc = Some (acc @ (pushed @ ls))" by simp
        moreover have "contents (pushed @ ls) = nonWhiteSpace seg"
          using whole pushed(2) ls(1) by simp
        moreover have "list_all (goodLine limit) (pushed @ ls)" using pushed(1) ls(2) by simp
        ultimately show ?thesis by blast
      qed
    qed
  qed
qed

section \<open>Paragraphs and the whole function\<close>

lemma processParagraphs_spec:
  assumes "0 < limit"
  shows "\<exists>ls. (\<forall>acc. processParagraphs ps limit acc = Some (acc @ ls))
     \<and> contents ls = contents ps \<and> list_all (goodLine limit) ls"
proof (induction ps)
  case Nil
  show ?case by (intro exI [of _ "[]"]) simp
next
  case (Cons p ps)
  then obtain ls where
    run: "\<And>acc. processParagraphs ps limit acc = Some (acc @ ls)"
    and ls: "contents ls = contents ps" "list_all (goodLine limit) ls"
    by blast
  show ?case
  proof (cases "trim p = []")
    case True
    then have "nonWhiteSpace p = []" by (rule trim_Nil_nonWhiteSpace)
    with True run ls show ?thesis by (intro exI [of _ ls]) simp
  next
    case False
    then have "isLine (trim p)" by (rule isLine_trim)
    from processSegment_spec [OF assms this] obtain ls1 where
      seg: "\<And>acc. processSegment (trim p) limit acc = Some (acc @ ls1)"
      and ls1: "contents ls1 = nonWhiteSpace (trim p)" "list_all (goodLine limit) ls1"
      by blast
    from False seg run
    have "\<And>acc. processParagraphs (p # ps) limit acc = Some (acc @ (ls1 @ ls))" by simp
    with ls ls1 show ?thesis
      by (intro exI [of _ "ls1 @ ls"]) (simp add: nonWhiteSpace_trim)
  qed
qed

lemma contents_splitLoop:
  "contents (splitLoop False lineBreak chunk rest) = nonWhiteSpace (chunk @ rest)"
proof (induction False lineBreak chunk rest rule: splitLoop.induct)
  case (1 chunk)
  show ?case by simp
next
  case (2 chunk c cs)
  have ws: "nonWhiteSpace [10] = []" "nonWhiteSpace [13, 10] = []"
    by (simp_all add: nonWhiteSpace_def isWhiteSpace_def)
  show ?case
  proof (cases "lineBreak (c # cs)")
    case None
    with 2 show ?thesis by simp
  next
    case (Some k)
    then have k: "(k = 1 \<and> c = 10) \<or> (k = 2 \<and> c = 13 \<and> take 1 cs = [10])"
      by (auto simp: lineBreak_def split: if_splits list.splits)
    then have "k \<noteq> 0" by auto
    with 2(3) [OF Some]
    have "contents (splitLoop False lineBreak [] (drop k (c # cs)))
        = nonWhiteSpace (drop k (c # cs))" by simp
    with Some \<open>k \<noteq> 0\<close>
    have "contents (splitLoop False lineBreak chunk (c # cs))
        = nonWhiteSpace chunk @ nonWhiteSpace (drop k (c # cs))" by simp
    also have "nonWhiteSpace (drop k (c # cs)) = nonWhiteSpace (c # cs)"
    proof -
      have "nonWhiteSpace (c # cs) = nonWhiteSpace (take k (c # cs)) @ nonWhiteSpace (drop k (c # cs))"
        by (simp only: nonWhiteSpace_append [symmetric] append_take_drop_id)
      moreover have "nonWhiteSpace (take k (c # cs)) = []"
        using k ws by (auto simp: take_Suc_conv_app_nth numeral_2_eq_2 split: list.splits)
      ultimately show ?thesis by simp
    qed
    finally show ?thesis by simp
  qed
qed

lemma contents_paragraphs: "contents (jsSplit False lineBreak s) = nonWhiteSpace s"
  by (simp add: jsSplit_def lineBreak_def contents_splitLoop)

lemma isWhiteSpace_restore [simp]: "isWhiteSpace (if c = 0 then 46 else c) = isWhiteSpace c"
  by (simp add: isWhiteSpace_def)

lemma nonWhiteSpace_restorePeriods:
  "nonWhiteSpace (restorePeriods l) = restorePeriods (nonWhiteSpace l)"
  by (induction l) (simp_all add: nonWhiteSpace_def restorePeriods_def)

lemma contents_restorePeriods:
  "contents (map restorePeriods ls) = restorePeriods (contents ls)"
  by (induction ls) (simp_all add: nonWhiteSpace_restorePeriods, simp_all add: restorePeriods_def)

lemma isLine_restorePeriods: "isLine l \<Longrightarrow> isLine (restorePeriods l)"
  by (simp add: isLine_iff restorePeriods_def hd_map last_map)

lemma splitLyrics_spec:
  assumes "0 < limit"
  shows "\<exists>ls. splitLyrics raw limit = Some (map restorePeriods ls)
     \<and> contents ls = nonWhiteSpace (protect raw) \<and> list_all (goodLine limit) ls"
proof -
  from processParagraphs_spec [OF assms, of "jsSplit False lineBreak (protect raw)"]
  obtain ls where
    run: "\<And>acc. processParagraphs (jsSplit False lineBreak (protect raw)) limit acc = Some (acc @ ls)"
    and ls: "contents ls = contents (jsSplit False lineBreak (protect raw))"
      "list_all (goodLine limit) ls"
    by blast
  show ?thesis
  proof (cases "raw = []")
    case True
    then have "protect raw = []" by (simp add: protect_def)
    with ls have "contents ls = []" by (simp add: contents_paragraphs)
    moreover have "\<And>l. goodLine limit l \<Longrightarrow> nonWhiteSpace l \<noteq> []"
      by (case_tac l) (auto simp: goodLine_def isLine_iff nonWhiteSpace_def)
    ultimately have "ls = []" using ls(2) by (cases ls) auto
    with True show ?thesis by (simp add: splitLyrics_def protect_def)
  next
    case False
    with run [of "[]"] ls show ?thesis
      by (intro exI [of _ ls]) (simp add: splitLyrics_def contents_paragraphs)
  qed
qed

section \<open>Masking and restoring\<close>

lemma matchLiteralCI_period:
  "matchLiteralCI (a @ [46]) s \<Longrightarrow> length a < length s \<and> s ! length a = 46"
proof (induction a arbitrary: s)
  case Nil
  then show ?case by (cases s) (auto simp: canonicalize_def split: if_splits)
next
  case (Cons p ps)
  then show ?case by (cases s) auto
qed

lemma matchAbbreviation_period:
  assumes "matchAbbreviation prev s = Some k"
  shows "k < length s \<and> s ! k = 46"
proof -
  from assms obtain a where "matchLiteralCI (a @ [46]) s" and "k = length a"
    by (auto simp: matchAbbreviation_def find_Some_iff split: if_splits)
  then show ?thesis using matchLiteralCI_period by blast
qed

lemma matchInitial_period:
  assumes "matchInitial prev s = Some k"
  shows "k < length s \<and> s ! k = 46"
  using assms by (auto simp: matchInitial_def split: if_splits list.splits)

lemma restorePeriods_append [simp]:
  "restorePeriods (a @ b) = restorePeriods a @ restorePeriods b"
  by (simp add: restorePeriods_def)

lemma restorePeriods_Cons:
  "restorePeriods (c # s) = (if c = 0 then 46 else c) # restorePeriods s"
  by (simp add: restorePeriods_def)

lemma restore_replacePeriods:
  assumes "\<And>prev s k. m prev s = Some k \<Longrightarrow> k < length s \<and> s ! k = 46"
  shows "restorePeriods (replacePeriods m prev s) = restorePeriods s"
  using assms
proof (induction m prev s rule: replacePeriods.induct)
  case (1 m prev)
  show ?case by simp
next
  case (2 m prev c cs)
  note m = "2.prems"
  show ?case
  proof (cases "m prev (c # cs)")
    case None
    with "2.IH"(1) m show ?thesis by (simp add: restorePeriods_def)
  next
    case (Some k)
    with m have k: "k < length (c # cs)" "(c # cs) ! k = 46" by blast+
    then have "c # cs = take k (c # cs) @ [46] @ drop (Suc k) (c # cs)"
      using id_take_nth_drop [of k "c # cs"] by simp
    then have "restorePeriods (c # cs)
        = restorePeriods (take k (c # cs)) @ restorePeriods [46]
          @ restorePeriods (drop (Suc k) (c # cs))"
      by (metis restorePeriods_append)
    moreover have "restorePeriods [46] = [46]" "restorePeriods [0] = [46]"
      by (simp_all add: restorePeriods_def)
    moreover have "restorePeriods (replacePeriods m (Some 46) (drop (Suc k) (c # cs)))
        = restorePeriods (drop (Suc k) (c # cs))"
    proof (rule "2.IH"(2) [OF Some])
      show "\<And>prev s k. m prev s = Some k \<Longrightarrow> k < length s \<and> s ! k = 46" by (rule m)
    qed
    ultimately show ?thesis using Some by (simp add: restorePeriods_Cons)
  qed
qed

lemma restore_protect: "restorePeriods (protect raw) = restorePeriods raw"
  by (simp add: protect_def restore_replacePeriods matchAbbreviation_period matchInitial_period)

lemma restorePeriods_id: "0 \<notin> set s \<Longrightarrow> restorePeriods s = s"
  by (induction s) (auto simp: restorePeriods_def)

lemma length_restorePeriods [simp]: "length (restorePeriods l) = length l"
  by (simp add: restorePeriods_def)

section \<open>The recursion on the tail\<close>

text \<open>
  A tail that is not shorter than the segment is the segment itself, which is why the
  model lets \<open>processSegment\<close> return \<open>None\<close> there: the source would call itself
  with its own arguments. For a positive limit this never happens.
\<close>

lemma dropWhile_same_length: "length (dropWhile P xs) = length xs \<Longrightarrow> dropWhile P xs = xs"
  using length_dropWhile_le [of P "tl xs"] by (cases xs) (auto split: if_splits)

lemma trim_same_length:
  assumes "length (trim s) = length s"
  shows "trim s = s"
proof -
  let ?u = "dropWhile isWhiteSpace s"
  have "length (trim s) \<le> length ?u"
    unfolding trim_def by (metis length_dropWhile_le length_rev)
  moreover have "length ?u \<le> length s" by (rule length_dropWhile_le)
  ultimately have "length ?u = length s" using assms by simp
  then have u: "?u = s" by (rule dropWhile_same_length)
  with assms have "length (dropWhile isWhiteSpace (rev s)) = length (rev s)"
    by (simp add: trim_def)
  then have "dropWhile isWhiteSpace (rev s) = rev s" by (rule dropWhile_same_length)
  with u show ?thesis by (simp add: trim_def)
qed

lemma tail_not_shorter:
  assumes "\<not> length (trim (drop k s)) < length s"
  shows "trim (drop k s) = s"
proof -
  have "length (trim (drop k s)) \<le> length (drop k s)" by (rule length_trim_le)
  with assms have "length (drop k s) = length s" and same: "length (trim (drop k s)) = length (drop k s)"
    by simp_all
  then have "k = 0 \<or> length s = 0" by (simp only: length_drop) arith
  then have "drop k s = s" by auto
  with same show ?thesis by (simp add: trim_same_length)
qed

lemma trim_leading: "s \<noteq> [] \<Longrightarrow> isWhiteSpace (hd s) \<Longrightarrow> length (trim s) < length s"
proof -
  assume "s \<noteq> []" and "isWhiteSpace (hd s)"
  then obtain c cs where s: "s = c # cs" and c: "isWhiteSpace c" by (cases s) auto
  have "length (trim s) \<le> length (dropWhile isWhiteSpace s)"
    unfolding trim_def by (metis length_dropWhile_le length_rev)
  also have "\<dots> \<le> length cs" using s c by (simp add: length_dropWhile_le)
  finally show ?thesis using s by simp
qed

lemma tail_shorter:
  assumes "0 < limit" and "seg \<noteq> []"
  shows "length (trim (drop (nat (if findBestSplitIndex seg limit = - 1 then int limit
            else findBestSplitIndex seg limit)) seg)) < length seg"
proof (cases "0 < nat (if findBestSplitIndex seg limit = - 1 then int limit
    else findBestSplitIndex seg limit)")
  case True
  then show ?thesis using assms(2) by (rule length_trim_drop)
next
  case False
  with assms(1) findBestSplitIndex_cases [OF assms(1), of seg]
  have "hd seg = 32" and zero: "nat (if findBestSplitIndex seg limit = - 1 then int limit
    else findBestSplitIndex seg limit) = 0"
    by (auto split: if_splits)
  then have "isWhiteSpace (hd seg)" by (simp add: isWhiteSpace_def)
  with assms(2) show ?thesis unfolding zero by (simp add: trim_leading)
qed

section \<open>The general claims\<close>

text \<open>
  C1, as amended. For every positive limit and every input that does not contain
  U+0000, \<open>splitLyrics\<close> returns, and the non-whitespace code units of the returned
  lines, in order, are those of the paragraphs of the input, which are those of the
  input itself. (An input with U+0000 comes back with a period in its place.)
\<close>

theorem content_preserved:
  assumes "0 < limit" and "0 \<notin> set raw"
  shows "\<exists>lines. splitLyrics raw limit = Some lines
     \<and> contents lines = contents (jsSplit False lineBreak raw)
     \<and> contents lines = nonWhiteSpace raw"
proof -
  from splitLyrics_spec [OF assms(1), of raw] obtain ls where
    run: "splitLyrics raw limit = Some (map restorePeriods ls)"
    and ls: "contents ls = nonWhiteSpace (protect raw)"
    by blast
  have "contents (map restorePeriods ls) = nonWhiteSpace (restorePeriods (protect raw))"
    by (simp add: contents_restorePeriods ls nonWhiteSpace_restorePeriods)
  also have "\<dots> = nonWhiteSpace raw"
    using assms(2) by (simp add: restore_protect restorePeriods_id)
  finally show ?thesis using run by (simp add: contents_paragraphs)
qed

theorem content_preserved_witness:
  "0 < (20::nat) \<and> 0 \<notin> set (js ''Hello world. Bye.'')
   \<and> (\<exists>lines. splitLyrics (js ''Hello world. Bye.'') 20 = Some lines
        \<and> contents lines = contents (jsSplit False lineBreak (js ''Hello world. Bye.''))
        \<and> contents lines = nonWhiteSpace (js ''Hello world. Bye.''))"
  using content_preserved [of 20 "js ''Hello world. Bye.''"] by (simp add: js_def)

theorem content_changed_by_sentinel:
  "splitLyrics [97, 0, 98] 10 = Some [js ''a.b'']
   \<and> contents [js ''a.b''] = js ''a.b''
   \<and> contents (jsSplit False lineBreak [97, 0, 98]) = [97, 0, 98]
   \<and> js ''a.b'' \<noteq> [97, 0, 98]"
  by (simp add: eval_defs contents_def nonWhiteSpace_def)

text \<open>
  C2. For every positive limit \<open>splitLyrics\<close> returns. In the recursion, every atom
  of a split that yields at least two atoms is shorter than the segment that was split,
  and the trimmed tail after the cut (at the index found, or at \<open>limit\<close>) is shorter
  than the segment that was cut.
\<close>

theorem splitLyrics_terminates:
  assumes "0 < limit"
  shows "(\<exists>lines. splitLyrics raw limit = Some lines)
     \<and> (\<not> length (buildAtoms (jsSplit True m seg)) < 2 \<longrightarrow>
          list_all (\<lambda>atom. length atom < length seg) (buildAtoms (jsSplit True m seg)))
     \<and> (seg \<noteq> [] \<longrightarrow>
          length (trim (drop (nat (if findBestSplitIndex seg limit = - 1 then int limit
            else findBestSplitIndex seg limit)) seg)) < length seg)"
  using splitLyrics_spec [OF assms, of raw] atoms_shorter [of m seg] tail_shorter [OF assms, of seg]
  by (auto simp: list_all_iff)

theorem splitLyrics_terminates_witness:
  "0 < (5::nat)
   \<and> (\<exists>lines. splitLyrics (js ''one, two three'') 5 = Some lines)
   \<and> \<not> length (buildAtoms (jsSplit True minorSeparator (js ''one, two three''))) < 2
   \<and> list_all (\<lambda>atom. length atom < length (js ''one, two three''))
        (buildAtoms (jsSplit True minorSeparator (js ''one, two three'')))
   \<and> js ''two three'' \<noteq> []
   \<and> length (trim (drop (nat (if findBestSplitIndex (js ''two three'') 5 = - 1 then int 5
            else findBestSplitIndex (js ''two three'') 5)) (js ''two three'')))
        < length (js ''two three'')"
proof -
  have a: "\<not> length (buildAtoms (jsSplit True minorSeparator (js ''one, two three''))) < 2"
    by (simp add: eval_defs)
  have b: "js ''two three'' \<noteq> []" by (simp add: js_def)
  from splitLyrics_terminates [of 5 "js ''one, two three''" minorSeparator "js ''one, two three''"] a
  have "(\<exists>lines. splitLyrics (js ''one, two three'') 5 = Some lines)"
    and "list_all (\<lambda>atom. length atom < length (js ''one, two three''))
        (buildAtoms (jsSplit True minorSeparator (js ''one, two three'')))" by simp_all
  moreover from splitLyrics_terminates [of 5 "js ''one, two three''" minorSeparator "js ''two three''"] b
  have "length (trim (drop (nat (if findBestSplitIndex (js ''two three'') 5 = - 1 then int 5
            else findBestSplitIndex (js ''two three'') 5)) (js ''two three'')))
        < length (js ''two three'')" by simp
  ultimately show ?thesis using a b by simp
qed

text \<open>
  C3. For every positive limit, every line returned by \<open>splitLyrics\<close> has length at
  most \<open>max(limit * 1.5, limit + 5)\<close>. No line is excepted: the head of a hard cut has
  length at most \<open>limit\<close>, and an atom longer than \<open>limit * 1.5\<close> is never kept whole
  but processed again.
\<close>

theorem bounded_length:
  assumes "0 < limit"
  shows "\<exists>lines. splitLyrics raw limit = Some lines
     \<and> list_all (\<lambda>line. ofInt (int (length line)) \<le> maxLen limit) lines"
proof -
  from splitLyrics_spec [OF assms, of raw] obtain ls where
    "splitLyrics raw limit = Some (map restorePeriods ls)" and "list_all (goodLine limit) ls"
    by blast
  then show ?thesis by (auto simp: list_all_iff goodLine_def)
qed

theorem bounded_length_witness:
  "0 < (20::nat)
   \<and> (\<exists>lines. splitLyrics (js ''Hello world. Bye.'') 20 = Some lines
        \<and> list_all (\<lambda>line. ofInt (int (length line)) \<le> maxLen 20) lines)"
  using bounded_length [of 20 "js ''Hello world. Bye.''"] by simp

text \<open>
  C4. For every positive limit, every line returned by \<open>splitLyrics\<close> is non-empty,
  equal to its own trim, and not made of white space only. The accumulator keeps the
  invariant: \<open>processSegment\<close>, called on a trimmed non-empty segment and an accumulator
  of such lines, returns an accumulator of such lines.
\<close>

theorem lines_nonempty:
  assumes "0 < limit"
  shows "(\<exists>lines. splitLyrics raw limit = Some lines
       \<and> list_all (\<lambda>line. line \<noteq> [] \<and> trim line = line \<and> \<not> list_all isWhiteSpace line) lines)
     \<and> (seg \<noteq> [] \<and> trim seg = seg \<and> list_all isLine acc \<longrightarrow>
          (\<exists>acc'. processSegment seg limit acc = Some acc' \<and> list_all isLine acc'))"
proof
  from splitLyrics_spec [OF assms, of raw] obtain ls where
    run: "splitLyrics raw limit = Some (map restorePeriods ls)" and "list_all (goodLine limit) ls"
    by blast
  then have "\<And>l. l \<in> set ls \<Longrightarrow> isLine (restorePeriods l)"
    by (auto simp: list_all_iff goodLine_def isLine_restorePeriods)
  then have "list_all (\<lambda>line. line \<noteq> [] \<and> trim line = line \<and> \<not> list_all isWhiteSpace line)
      (map restorePeriods ls)"
    using isLine_not_blank by (auto simp: list_all_iff isLine_def)
  with run show "\<exists>lines. splitLyrics raw limit = Some lines
       \<and> list_all (\<lambda>line. line \<noteq> [] \<and> trim line = line \<and> \<not> list_all isWhiteSpace line) lines"
    by blast
next
  show "seg \<noteq> [] \<and> trim seg = seg \<and> list_all isLine acc \<longrightarrow>
          (\<exists>acc'. processSegment seg limit acc = Some acc' \<and> list_all isLine acc')"
  proof
    assume a: "seg \<noteq> [] \<and> trim seg = seg \<and> list_all isLine acc"
    then have "isLine seg" by (simp add: isLine_def)
    from processSegment_spec [OF assms this] obtain ls where
      "processSegment seg limit acc = Some (acc @ ls)" and "list_all (goodLine limit) ls"
      by blast
    with a show "\<exists>acc'. processSegment seg limit acc = Some acc' \<and> list_all isLine acc'"
      by (auto simp: list_all_iff goodLine_def)
  qed
qed

theorem lines_nonempty_witness:
  "0 < (20::nat)
   \<and> (\<exists>lines. splitLyrics (js ''Hello world. Bye.'') 20 = Some lines
       \<and> list_all (\<lambda>line. line \<noteq> [] \<and> trim line = line \<and> \<not> list_all isWhiteSpace line) lines)
   \<and> js ''Bye.'' \<noteq> [] \<and> trim (js ''Bye.'') = js ''Bye.'' \<and> list_all isLine [js ''Hello world.'']
   \<and> (\<exists>acc'. processSegment (js ''Bye.'') 20 [js ''Hello world.''] = Some acc'
        \<and> list_all isLine acc')"
proof -
  have a: "js ''Bye.'' \<noteq> [] \<and> trim (js ''Bye.'') = js ''Bye.'' \<and> list_all isLine [js ''Hello world.'']"
    by (simp add: js_def trim_def isWhiteSpace_def isLine_def)
  with lines_nonempty [of 20 "js ''Hello world. Bye.''" "js ''Bye.''" "[js ''Hello world.'']"]
  show ?thesis by simp
qed

section \<open>Blank input\<close>

lemma trim_Nil_iff: "trim s = [] \<longleftrightarrow> nonWhiteSpace s = []"
proof
  assume "nonWhiteSpace s = []"
  then have "\<forall>c\<in>set s. isWhiteSpace c" by (simp add: nonWhiteSpace_def filter_empty_conv)
  then have d: "dropWhile isWhiteSpace s = []" by simp
  show "trim s = []" unfolding trim_def d by simp
qed (rule trim_Nil_nonWhiteSpace)

lemma processParagraphs_blank:
  "list_all (\<lambda>p. trim p = []) ps \<Longrightarrow> processParagraphs ps limit acc = Some acc"
  by (induction ps) simp_all

lemma contents_blank: "list_all (\<lambda>p. trim p = []) ps \<Longrightarrow> contents ps = []"
  by (induction ps) (simp_all add: trim_Nil_nonWhiteSpace)

lemma paragraphs_blank:
  "list_all (\<lambda>p. trim p = []) (jsSplit False lineBreak s) \<longleftrightarrow> nonWhiteSpace s = []"
proof
  assume "list_all (\<lambda>p. trim p = []) (jsSplit False lineBreak s)"
  then have "contents (jsSplit False lineBreak s) = []" by (rule contents_blank)
  then show "nonWhiteSpace s = []" by (simp add: contents_paragraphs)
next
  assume "nonWhiteSpace s = []"
  then have "contents (jsSplit False lineBreak s) = []" by (simp add: contents_paragraphs)
  then have "\<forall>p\<in>set (jsSplit False lineBreak s). nonWhiteSpace p = []"
    by (simp add: contents_def)
  then show "list_all (\<lambda>p. trim p = []) (jsSplit False lineBreak s)"
    by (simp add: list_all_iff trim_Nil_iff)
qed

lemma whiteSpace_not_word: "isWhiteSpace c \<Longrightarrow> \<not> isWordChar c"
  by (auto simp: isWhiteSpace_def isWordChar_def)

lemma canonicalize_capital:
  "65 \<le> p \<Longrightarrow> p \<le> 90 \<Longrightarrow> canonicalize p = canonicalize c \<Longrightarrow> isWordChar c"
  by (auto simp: canonicalize_def isWordChar_def split: if_splits)

lemma abbreviations_capital:
  "a \<in> set abbreviations \<Longrightarrow> \<exists>p ps. a = p # ps \<and> 65 \<le> p \<and> p \<le> 90"
  by (auto simp: abbreviations_def js_def)

lemma matchAbbreviation_nonword: "\<not> isWordChar c \<Longrightarrow> matchAbbreviation prev (c # cs) = None"
  using abbreviations_capital canonicalize_capital
  by (fastforce simp: matchAbbreviation_def find_None_iff)

lemma matchInitial_nonword: "\<not> isWordChar c \<Longrightarrow> matchInitial prev (c # cs) = None"
  by (auto simp: matchInitial_def isWordChar_def split: list.splits)

lemma replacePeriods_nonword:
  assumes "\<And>prev c cs. \<not> isWordChar c \<Longrightarrow> m prev (c # cs) = None"
  shows "list_all (\<lambda>c. \<not> isWordChar c) s \<Longrightarrow> replacePeriods m prev s = s"
  by (induction s arbitrary: prev) (simp_all add: assms)

lemma protect_blank:
  assumes "nonWhiteSpace s = []"
  shows "protect s = s"
proof -
  from assms have "list_all (\<lambda>c. \<not> isWordChar c) s"
    by (auto simp: nonWhiteSpace_def filter_empty_conv list_all_iff whiteSpace_not_word)
  then show ?thesis
    by (simp add: protect_def replacePeriods_nonword matchAbbreviation_nonword
        matchInitial_nonword)
qed

text \<open>
  C9. \<open>splitLyrics\<close> of the empty string is the empty sequence, and so is
  \<open>splitLyrics\<close> of any input of which every paragraph is empty after trimming, for
  every limit.
\<close>

theorem blank_input:
  "splitLyrics [] limit = Some []
   \<and> (list_all (\<lambda>p. trim p = []) (jsSplit False lineBreak raw) \<longrightarrow>
        splitLyrics raw limit = Some [])"
proof
  show "splitLyrics [] limit = Some []" by (simp add: splitLyrics_def)
  show "list_all (\<lambda>p. trim p = []) (jsSplit False lineBreak raw) \<longrightarrow>
        splitLyrics raw limit = Some []"
  proof
    assume blank: "list_all (\<lambda>p. trim p = []) (jsSplit False lineBreak raw)"
    then have "nonWhiteSpace raw = []" by (simp add: paragraphs_blank)
    then have "protect raw = raw" by (rule protect_blank)
    with blank show "splitLyrics raw limit = Some []"
      by (simp add: splitLyrics_def processParagraphs_blank)
  qed
qed

theorem blank_input_witness:
  "list_all (\<lambda>p. trim p = []) (jsSplit False lineBreak (js ''   '' @ [10, 10] @ js ''  ''))
   \<and> splitLyrics [] 14 = Some []
   \<and> splitLyrics (js ''   '' @ [10, 10] @ js ''  '') 14 = Some []"
proof -
  have "list_all (\<lambda>p. trim p = []) (jsSplit False lineBreak (js ''   '' @ [10, 10] @ js ''  ''))"
    by (simp add: js_def jsSplit_def lineBreak_def trim_def isWhiteSpace_def)
  with blank_input [of 14 "js ''   '' @ [10, 10] @ js ''  ''"] show ?thesis by simp
qed

section \<open>The whitespace splitter on a too-early space\<close>

text \<open>
  C5, as amended. Let the last space at or before \<open>limit\<close> lie before \<open>limit * 0.4\<close>
  (or let there be none), and let the first space from \<open>limit\<close> on be absent or lie
  beyond \<open>limit * 1.4\<close>. Then \<open>findBestSplitIndex\<close> returns the index of that last
  space, and reports not found exactly when there is no space at or before \<open>limit\<close>.
  The caller, \<open>processSegment\<close> on a segment longer than \<open>maxLen\<close> that neither
  punctuation strategy has split, cuts at the too-early space when there is one and
  at \<open>limit\<close> only when there is none: it pushes the trimmed head when that is not
  empty and goes on with the trimmed tail.

  The example: in \<open>"A verylongwordwithoutanyspacesatall"\<close> with limit 10 the only space is
  at index 1, before \<open>4\<close>; the function returns 1 and the first line is \<open>"A"\<close>, where the
  claim has a hard cut at index 10.
\<close>

theorem early_space_is_returned:
  assumes "0 < limit"
    and "ofInt (lastIndexOf seg 32 limit) < timesLit limit lit_0_4"
    and "indexOf seg 32 limit = - 1 \<or> timesLit limit lit_1_4 < ofInt (indexOf seg 32 limit)"
    and "\<not> ofInt (int (length seg)) \<le> maxLen limit"
    and "trySplitAndReflow seg majorSeparator limit acc = Some (False, acc)"
    and "trySplitAndReflow seg minorSeparator limit acc = Some (False, acc)"
  shows "findBestSplitIndex seg limit = lastIndexOf seg 32 limit
     \<and> (findBestSplitIndex seg limit = - 1) = (lastIndexOf seg 32 limit = - 1)
     \<and> processSegment seg limit acc =
         (let cut = (if lastIndexOf seg 32 limit = - 1 then limit
                     else nat (lastIndexOf seg 32 limit));
              head = trim (take cut seg);
              tail = trim (drop cut seg);
              acc' = (if head \<noteq> [] then acc @ [head] else acc)
          in if tail = [] then Some acc' else processSegment tail limit acc')"
proof -
  have found: "findBestSplitIndex seg limit = lastIndexOf seg 32 limit"
    using assms(2,3) by (auto simp: findBestSplitIndex_def Let_def)
  from assms(4) have "seg \<noteq> []" by (auto simp: maxLen_def ofInt_def timesLit_def)
  then have "length (trim (drop (nat (if lastIndexOf seg 32 limit = - 1 then int limit
      else lastIndexOf seg 32 limit)) seg)) < length seg"
    using tail_shorter [OF assms(1), of seg] unfolding found by simp
  then have short: "length (trim (drop (if lastIndexOf seg 32 limit = - 1 then limit
      else nat (lastIndexOf seg 32 limit)) seg)) < length seg"
    by (cases "lastIndexOf seg 32 limit = - 1") simp_all
  have cut: "nat (if lastIndexOf seg 32 limit = - 1 then int limit else lastIndexOf seg 32 limit)
      = (if lastIndexOf seg 32 limit = - 1 then limit else nat (lastIndexOf seg 32 limit))"
    by simp
  have "processSegment seg limit acc =
         (let cut = (if lastIndexOf seg 32 limit = - 1 then limit
                     else nat (lastIndexOf seg 32 limit));
              head = trim (take cut seg);
              tail = trim (drop cut seg);
              acc' = (if head \<noteq> [] then acc @ [head] else acc)
          in if tail = [] then Some acc' else processSegment tail limit acc')"
    using short
    by (simp add: processSegment.simps [of seg] assms(4,5,6) found Let_def cut)
  with found show ?thesis by simp
qed

theorem early_space_is_returned_witness:
  "0 < (10::nat)
   \<and> ofInt (lastIndexOf (js ''A verylongwordwithoutanyspacesatall'') 32 10) < timesLit 10 lit_0_4
   \<and> indexOf (js ''A verylongwordwithoutanyspacesatall'') 32 10 = - 1
   \<and> \<not> ofInt (int (length (js ''A verylongwordwithoutanyspacesatall''))) \<le> maxLen 10
   \<and> trySplitAndReflow (js ''A verylongwordwithoutanyspacesatall'') majorSeparator 10 []
      = Some (False, [])
   \<and> trySplitAndReflow (js ''A verylongwordwithoutanyspacesatall'') minorSeparator 10 []
      = Some (False, [])
   \<and> findBestSplitIndex (js ''A verylongwordwithoutanyspacesatall'') 10 = 1
   \<and> processSegment (js ''A verylongwordwithoutanyspacesatall'') 10 []
      = processSegment (js ''verylongwordwithoutanyspacesatall'') 10 [js ''A'']"
proof -
  let ?s = "js ''A verylongwordwithoutanyspacesatall''"
  have a: "ofInt (lastIndexOf ?s 32 10) < timesLit 10 lit_0_4"
    and b: "indexOf ?s 32 10 = - 1"
    and c: "lastIndexOf ?s 32 10 = 1"
    and d: "\<not> ofInt (int (length ?s)) \<le> maxLen 10"
    by (simp_all add: js_def lastIndexOf_def indexOf_def ofInt_def timesLit_def lit_0_4_def
        lit_1_5_def maxLen_def plus5_def roundToDouble_def bitLength.simps Let_def)
  have e: "trySplitAndReflow ?s majorSeparator 10 [] = Some (False, [])"
    and f: "trySplitAndReflow ?s minorSeparator 10 [] = Some (False, [])"
    by (simp_all add: eval_defs)
  have g: "trim (take 1 ?s) = js ''A''"
    "trim (drop 1 ?s) = js ''verylongwordwithoutanyspacesatall''"
    by (simp_all add: js_def trim_def isWhiteSpace_def)
  have cutv: "(if lastIndexOf ?s 32 10 = - 1 then (10::nat) else nat (lastIndexOf ?s 32 10)) = 1"
    by (simp add: c)
  have pos: "(0::nat) < 10" by simp
  note th = early_space_is_returned [OF pos a disjI1 [OF b] d e f]
  from th have "findBestSplitIndex ?s 10 = 1" by (simp add: c)
  moreover from th have "processSegment ?s 10 [] =
      (if js ''verylongwordwithoutanyspacesatall'' = []
       then Some (if js ''A'' \<noteq> [] then [] @ [js ''A''] else [])
       else processSegment (js ''verylongwordwithoutanyspacesatall'') 10
              (if js ''A'' \<noteq> [] then [] @ [js ''A''] else []))"
    unfolding cutv Let_def g by (rule conjunct2 [OF conjunct2])
  then have "processSegment ?s 10 []
      = processSegment (js ''verylongwordwithoutanyspacesatall'') 10 [js ''A'']"
    by (simp add: js_def)
  ultimately show ?thesis using a b d e f by simp
qed

theorem early_space_not_hard_cut:
  "ofInt (lastIndexOf (js ''A verylongwordwithoutanyspacesatall'') 32 10) < timesLit 10 lit_0_4
   \<and> indexOf (js ''A verylongwordwithoutanyspacesatall'') 32 10 = - 1
   \<and> findBestSplitIndex (js ''A verylongwordwithoutanyspacesatall'') 10 = 1
   \<and> splitLyrics (js ''A verylongwordwithoutanyspacesatall'') 10
      = Some [js ''A'', js ''verylongwo'', js ''rdwithouta'', js ''nyspacesatall'']"
  by (simp add: eval_defs)

section \<open>Paragraphs are processed independently\<close>

text \<open>
  Neither masking regex matches a line feed, needs anything after its period, or tells
  a line feed before the match from the start of the string; so masking distributes
  over a line feed.
\<close>

lemma replacePeriods_start:
  assumes "\<And>s. m (Some 10) s = m None s"
  shows "replacePeriods m (Some 10) s = replacePeriods m None s"
  by (cases s) (simp_all add: assms)

lemma replacePeriods_newline:
  assumes nl: "\<And>prev b. m prev (10 # b) = None"
    and loc: "\<And>prev c cs b. m prev (c # cs @ 10 # b) = m prev (c # cs)"
    and len: "\<And>prev s k. m prev s = Some k \<Longrightarrow> k < length s"
    and start: "\<And>s. m (Some 10) s = m None s"
  shows "replacePeriods m prev (a @ 10 # b)
     = replacePeriods m prev a @ 10 # replacePeriods m None b"
proof (induction a arbitrary: prev rule: length_induct)
  case (1 a)
  show ?case
  proof (cases a)
    case Nil
    then show ?thesis by (simp add: nl replacePeriods_start [OF start])
  next
    case (Cons c cs)
    show ?thesis
    proof (cases "m prev (c # cs)")
      case None
      have "replacePeriods m (Some c) (cs @ 10 # b)
          = replacePeriods m (Some c) cs @ 10 # replacePeriods m None b"
        using 1 Cons by simp
      with None Cons show ?thesis by (simp add: loc)
    next
      case (Some k)
      then have k: "k < length (c # cs)" by (rule len)
      then have "length (drop (Suc k) (c # cs)) < length a" using Cons by simp
      then have "replacePeriods m (Some 46) (drop (Suc k) (c # cs) @ 10 # b)
          = replacePeriods m (Some 46) (drop (Suc k) (c # cs)) @ 10 # replacePeriods m None b"
        using 1 by blast
      moreover have "drop (Suc k) ((c # cs) @ 10 # b) = drop (Suc k) (c # cs) @ 10 # b"
        using k by (simp del: append_Cons)
      then have "drop (Suc k) (c # cs @ 10 # b) = drop (Suc k) (c # cs) @ 10 # b"
        by (simp only: append_Cons)
      moreover have "take k ((c # cs) @ 10 # b) = take k (c # cs)"
        using k by (simp del: append_Cons)
      then have "take k (c # cs @ 10 # b) = take k (c # cs)"
        by (simp only: append_Cons)
      ultimately show ?thesis using Some Cons by (simp add: loc del: take_Suc_Cons drop_Suc_Cons)
    qed
  qed
qed

lemma matchLiteralCI_newline:
  "list_all (\<lambda>p. canonicalize p \<noteq> 10) pat \<Longrightarrow>
     matchLiteralCI pat (s @ 10 # b) = matchLiteralCI pat s"
proof (induction pat s rule: matchLiteralCI.induct)
  case (2 p ps)
  then show ?case by (simp add: canonicalize_def)
qed simp_all

lemma abbreviations_no_newline:
  "a \<in> set abbreviations \<Longrightarrow> list_all (\<lambda>p. canonicalize p \<noteq> 10) (a @ [46])"
  by (auto simp: abbreviations_def js_def canonicalize_def)

lemma wordBoundary_append: "wordBoundary prev (c # cs @ t) = wordBoundary prev (c # cs)"
  by (simp add: wordBoundary_def)

lemma matchAbbreviation_newline:
  "matchAbbreviation prev (c # cs @ 10 # b) = matchAbbreviation prev (c # cs)"
proof -
  have "List.find (\<lambda>a. matchLiteralCI (a @ [46]) ((c # cs) @ 10 # b)) abbreviations
      = List.find (\<lambda>a. matchLiteralCI (a @ [46]) (c # cs)) abbreviations"
    by (rule find_cong [OF refl]) (simp only: matchLiteralCI_newline abbreviations_no_newline)
  then show ?thesis
    using wordBoundary_append [of prev c cs "10 # b"] by (simp add: matchAbbreviation_def)
qed

lemma matchInitial_newline:
  "matchInitial prev (c # cs @ 10 # b) = matchInitial prev (c # cs)"
  using wordBoundary_append [of prev c cs "10 # b"]
  by (cases cs) (simp_all add: matchInitial_def)

lemma wordBoundary_start: "wordBoundary (Some 10) s = wordBoundary None s"
  by (simp add: wordBoundary_def isWordChar_def)

lemma not_word_newline: "\<not> isWordChar 10"
  by (simp add: isWordChar_def)

lemma protect_newline: "protect (a @ 10 # b) = protect a @ 10 # protect b"
proof -
  have "replacePeriods matchAbbreviation None (a @ 10 # b)
      = replacePeriods matchAbbreviation None a @ 10 # replacePeriods matchAbbreviation None b"
    using matchAbbreviation_period
    by (intro replacePeriods_newline)
       (simp_all add: matchAbbreviation_nonword not_word_newline matchAbbreviation_newline,
        simp_all add: matchAbbreviation_def wordBoundary_start)
  moreover have "\<And>x y. replacePeriods matchInitial None (x @ 10 # y)
      = replacePeriods matchInitial None x @ 10 # replacePeriods matchInitial None y"
    using matchInitial_period
    by (intro replacePeriods_newline)
       (simp_all add: matchInitial_nonword not_word_newline matchInitial_newline,
        simp_all add: matchInitial_def wordBoundary_start)
  ultimately show ?thesis by (simp add: protect_def)
qed

text \<open>
  Splitting at line breaks distributes over a line feed up to trimming: a carriage
  return that ends the first part is taken into the separator, and would be trimmed
  away otherwise.
\<close>

lemma trim_snoc_whiteSpace:
  assumes "isWhiteSpace w"
  shows "trim (s @ [w]) = trim s"
proof (cases "\<forall>c\<in>set s. isWhiteSpace c")
  case True
  then have "dropWhile isWhiteSpace (s @ [w]) = []" "dropWhile isWhiteSpace s = []"
    using assms by simp_all
  then show ?thesis by (simp only: trim_def)
next
  case False
  then obtain x where "x \<in> set s" "\<not> isWhiteSpace x" by blast
  then have "dropWhile isWhiteSpace (s @ [w]) = dropWhile isWhiteSpace s @ [w]"
    by (rule dropWhile_append1)
  then show ?thesis using assms by (simp add: trim_def)
qed

lemma lineBreak_cases:
  "lineBreak (c # cs) = (if c = 13 \<and> take 1 cs = [10] then Some 2 else if c = 10 then Some 1 else None)"
  by (cases cs) (simp_all add: lineBreak_def)

lemma splitLoop_newline:
  "filter (\<lambda>p. p \<noteq> []) (map trim (splitLoop False lineBreak chunk (a @ 10 # b)))
     = filter (\<lambda>p. p \<noteq> []) (map trim (splitLoop False lineBreak chunk a))
       @ filter (\<lambda>p. p \<noteq> []) (map trim (splitLoop False lineBreak [] b))"
proof (induction a arbitrary: chunk rule: length_induct)
  case (1 a)
  show ?case
  proof (cases a)
    case Nil
    then show ?thesis by (simp add: lineBreak_cases)
  next
    case (Cons c cs)
    consider (crlf) cs' where "c = 13" "cs = 10 # cs'"
      | (cr) "c = 13" "cs = []"
      | (lf) "c = 10"
      | (other) "c \<noteq> 10" "\<not> (c = 13 \<and> take 1 (cs @ 10 # b) = [10])" "\<not> (c = 13 \<and> take 1 cs = [10])"
      by (cases cs) auto
    then show ?thesis
    proof cases
      case crlf
      then have "length cs' < length a" using Cons by simp
      with 1 have "filter (\<lambda>p. p \<noteq> []) (map trim (splitLoop False lineBreak [] (cs' @ 10 # b)))
          = filter (\<lambda>p. p \<noteq> []) (map trim (splitLoop False lineBreak [] cs'))
            @ filter (\<lambda>p. p \<noteq> []) (map trim (splitLoop False lineBreak [] b))" by blast
      with crlf Cons show ?thesis by (simp add: lineBreak_cases)
    next
      case cr
      have "isWhiteSpace 13" by (simp add: isWhiteSpace_def)
      then have "trim (chunk @ [13]) = trim chunk" by (rule trim_snoc_whiteSpace)
      with cr Cons show ?thesis by (simp add: lineBreak_cases lineBreak_def)
    next
      case lf
      have "length cs < length a" using Cons by simp
      with 1 have "filter (\<lambda>p. p \<noteq> []) (map trim (splitLoop False lineBreak [] (cs @ 10 # b)))
          = filter (\<lambda>p. p \<noteq> []) (map trim (splitLoop False lineBreak [] cs))
            @ filter (\<lambda>p. p \<noteq> []) (map trim (splitLoop False lineBreak [] b))" by blast
      with lf Cons show ?thesis by (simp add: lineBreak_cases)
    next
      case other
      have "length cs < length a" using Cons by simp
      with 1 have "filter (\<lambda>p. p \<noteq> []) (map trim (splitLoop False lineBreak (chunk @ [c]) (cs @ 10 # b)))
          = filter (\<lambda>p. p \<noteq> []) (map trim (splitLoop False lineBreak (chunk @ [c]) cs))
            @ filter (\<lambda>p. p \<noteq> []) (map trim (splitLoop False lineBreak [] b))" by blast
      moreover have "lineBreak (c # cs @ 10 # b) = None" "lineBreak (c # cs) = None"
        using other by (simp_all add: lineBreak_cases)
      ultimately show ?thesis using Cons by simp
    qed
  qed
qed

lemma jsSplit_lineBreak: "jsSplit False lineBreak s = splitLoop False lineBreak [] s"
  by (simp add: jsSplit_def lineBreak_def)

lemma trim_trim: "trim (trim p) = trim p"
  using isLine_trim [of p] by (cases "trim p = []") (simp_all add: isLine_def)

lemma processParagraphs_filter:
  "processParagraphs (filter (\<lambda>p. p \<noteq> []) (map trim ps)) limit acc
     = processParagraphs ps limit acc"
  by (induction ps arbitrary: acc) (simp_all add: trim_trim split: option.splits)

lemma processParagraphs_append:
  "processParagraphs (xs @ ys) limit acc
     = (case processParagraphs xs limit acc of
          None \<Rightarrow> None
        | Some acc' \<Rightarrow> processParagraphs ys limit acc')"
  by (induction xs arbitrary: acc) (simp_all add: Let_def split: option.splits)

lemma splitLyrics_paragraphs:
  "splitLyrics raw limit
     = map_option (map restorePeriods)
         (processParagraphs (splitLoop False lineBreak [] (protect raw)) limit [])"
  by (cases "raw = []") (simp_all add: splitLyrics_def jsSplit_lineBreak protect_def)

text \<open>
  C10. For every positive limit and all strings \<open>a\<close> and \<open>b\<close>,
  \<open>splitLyrics(a + "\n" + b)\<close> is \<open>splitLyrics(a)\<close> followed by \<open>splitLyrics(b)\<close>.
\<close>

theorem paragraphs_independent:
  assumes "0 < limit"
  shows "\<exists>la lb. splitLyrics a limit = Some la \<and> splitLyrics b limit = Some lb
     \<and> splitLyrics (a @ [10] @ b) limit = Some (la @ lb)"
proof -
  let ?pa = "splitLoop False lineBreak [] (protect a)"
  let ?pb = "splitLoop False lineBreak [] (protect b)"
  let ?pab = "splitLoop False lineBreak [] (protect (a @ [10] @ b))"
  from processParagraphs_spec [OF assms, of ?pa] obtain la where
    la: "\<And>acc. processParagraphs ?pa limit acc = Some (acc @ la)" by blast
  from processParagraphs_spec [OF assms, of ?pb] obtain lb where
    lb: "\<And>acc. processParagraphs ?pb limit acc = Some (acc @ lb)" by blast
  have "processParagraphs ?pab limit []
      = processParagraphs (filter (\<lambda>p. p \<noteq> []) (map trim ?pab)) limit []"
    by (simp only: processParagraphs_filter)
  also have "filter (\<lambda>p. p \<noteq> []) (map trim ?pab)
      = filter (\<lambda>p. p \<noteq> []) (map trim ?pa) @ filter (\<lambda>p. p \<noteq> []) (map trim ?pb)"
    by (simp add: protect_newline splitLoop_newline)
  also have "processParagraphs \<dots> limit [] = Some (la @ lb)"
    by (simp add: processParagraphs_append processParagraphs_filter la lb)
  finally have "processParagraphs ?pab limit [] = Some (la @ lb)" .
  then have "splitLyrics (a @ [10] @ b) limit = Some (map restorePeriods la @ map restorePeriods lb)"
    by (simp add: splitLyrics_paragraphs)
  moreover have "splitLyrics a limit = Some (map restorePeriods la)"
    and "splitLyrics b limit = Some (map restorePeriods lb)"
    using la [of "[]"] lb [of "[]"] by (simp_all add: splitLyrics_paragraphs)
  ultimately show ?thesis by blast
qed

theorem paragraphs_independent_witness:
  "0 < (14::nat)
   \<and> (\<exists>la lb. splitLyrics (js ''Hello world.'') 14 = Some la
        \<and> splitLyrics (js ''Dr. Smith'') 14 = Some lb
        \<and> splitLyrics (js ''Hello world.'' @ [10] @ js ''Dr. Smith'') 14 = Some (la @ lb))"
  using paragraphs_independent [of 14 "js ''Hello world.''" "js ''Dr. Smith''"] by simp

section \<open>The hyphenated word\<close>

lemma hyphenExample_facts:
  "hyphenExample \<noteq> []"
  "length hyphenExample = 35"
  "protect hyphenExample = hyphenExample"
  "jsSplit False lineBreak hyphenExample = [hyphenExample]"
  "trim hyphenExample = hyphenExample"
  "jsSplit True majorSeparator hyphenExample = [hyphenExample]"
  "jsSplit True minorSeparator hyphenExample = [hyphenExample]"
  by (simp_all add: hyphenExample_def eval_defs)

lemma hyphenExample_cuts:
  "trim (take 13 hyphenExample) = js ''semi-detached''"
  "trim (take 19 hyphenExample) = js ''semi-detached house''"
  "trim (take 21 hyphenExample) = js ''semi-detached house -''"
  "trim (drop 13 hyphenExample) = js ''house - built in 1990''"
  "trim (drop 19 hyphenExample) = js ''- built in 1990''"
  "trim (drop 21 hyphenExample) = js ''built in 1990''"
  by (simp_all add: hyphenExample_def js_def trim_def isWhiteSpace_def)

lemma hyphenExample_no_separator:
  "trySplitAndReflow hyphenExample majorSeparator limit acc = Some (False, acc)"
  "trySplitAndReflow hyphenExample minorSeparator limit acc = Some (False, acc)"
  by (simp_all add: trySplitAndReflow.simps hyphenExample_facts)

lemma hyphenExample_fits:
  assumes "24 \<le> limit"
  shows "ofInt 35 \<le> maxLen limit"
proof -
  have "(limit * lit_1_5) * (2 ^ 53 - 1) \<le> roundToDouble (limit * lit_1_5) * 2 ^ 53"
    using roundToDouble_bounds by blast
  with assms have "35 * 2 ^ 54 \<le> roundToDouble (limit * lit_1_5)"
    by (simp add: lit_1_5_def)
  then have "ofInt 35 \<le> timesLit limit lit_1_5"
    unfolding ofInt_def timesLit_def
    by (metis of_nat_le_iff of_nat_mult of_nat_numeral of_nat_power)
  then show ?thesis using times_1_5_le_maxLen [of limit] by simp
qed

lemma hyphenExample_maxLen:
  "\<not> ofInt 35 \<le> maxLen 10"
  "\<not> ofInt 35 \<le> maxLen 11"
  "\<not> ofInt 35 \<le> maxLen 12"
  "\<not> ofInt 35 \<le> maxLen 13"
  "\<not> ofInt 35 \<le> maxLen 14"
  "\<not> ofInt 35 \<le> maxLen 15"
  "\<not> ofInt 35 \<le> maxLen 16"
  "\<not> ofInt 35 \<le> maxLen 17"
  "\<not> ofInt 35 \<le> maxLen 18"
  "\<not> ofInt 35 \<le> maxLen 19"
  "\<not> ofInt 35 \<le> maxLen 20"
  "\<not> ofInt 35 \<le> maxLen 21"
  "\<not> ofInt 35 \<le> maxLen 22"
  "\<not> ofInt 35 \<le> maxLen 23"
  by (simp_all add: eval_defs)

lemma hyphenExample_index:
  "findBestSplitIndex hyphenExample 10 = 13"
  "findBestSplitIndex hyphenExample 11 = 13"
  "findBestSplitIndex hyphenExample 12 = 13"
  "findBestSplitIndex hyphenExample 13 = 13"
  "findBestSplitIndex hyphenExample 14 = 13"
  "findBestSplitIndex hyphenExample 15 = 13"
  "findBestSplitIndex hyphenExample 16 = 13"
  "findBestSplitIndex hyphenExample 17 = 13"
  "findBestSplitIndex hyphenExample 18 = 13"
  "findBestSplitIndex hyphenExample 19 = 19"
  "findBestSplitIndex hyphenExample 20 = 19"
  "findBestSplitIndex hyphenExample 21 = 21"
  "findBestSplitIndex hyphenExample 22 = 21"
  "findBestSplitIndex hyphenExample 23 = 21"
  by (simp_all add: hyphenExample_def eval_defs)

lemma hyphenExample_thresholds:
  assumes "10 \<le> limit" and "limit < 24"
  shows "\<not> ofInt 35 \<le> maxLen limit
     \<and> findBestSplitIndex hyphenExample limit \<in> {13, 19, 21}"
proof -
  from assms have "limit = 10 \<or> limit = 11 \<or> limit = 12 \<or> limit = 13 \<or> limit = 14
      \<or> limit = 15 \<or> limit = 16 \<or> limit = 17 \<or> limit = 18 \<or> limit = 19 \<or> limit = 20
      \<or> limit = 21 \<or> limit = 22 \<or> limit = 23" by arith
  then show ?thesis using hyphenExample_maxLen hyphenExample_index by auto
qed

lemma hyphenExample_first_line:
  assumes "0 < limit"
    and "\<not> ofInt 35 \<le> maxLen limit"
    and "findBestSplitIndex hyphenExample limit \<in> {13, 19, 21}"
  shows "\<exists>line rest. processSegment hyphenExample limit [] = Some (line # rest)
     \<and> take 13 line = js ''semi-detached'' \<and> 0 \<notin> set line"
proof -
  define k where "k = nat (findBestSplitIndex hyphenExample limit)"
  from assms(3) have f: "findBestSplitIndex hyphenExample limit = int k"
    and k: "k = 13 \<or> k = 19 \<or> k = 21"
    by (auto simp: k_def)
  define head where "head = trim (take k hyphenExample)"
  define tail where "tail = trim (drop k hyphenExample)"
  from k have head: "head \<noteq> []" "take 13 head = js ''semi-detached''" "0 \<notin> set head"
    by (auto simp: head_def hyphenExample_cuts js_def)
  from k have tail: "tail \<noteq> []" "length tail < length hyphenExample"
    by (auto simp: tail_def hyphenExample_cuts hyphenExample_facts js_def)
  from tail(1) have "isLine tail" unfolding tail_def by (rule isLine_trim)
  from processSegment_spec [OF assms(1) this] obtain ls where
    "processSegment tail limit [head] = Some ([head] @ ls)" by blast
  moreover have "processSegment hyphenExample limit [] = processSegment tail limit [head]"
    using assms(2) head(1) tail
    by (simp add: processSegment.simps [of hyphenExample] hyphenExample_no_separator
        hyphenExample_facts f Let_def head_def [symmetric] tail_def [symmetric])
  ultimately show ?thesis using head by simp
qed

text \<open>
  C6, as amended. For the input \<open>"semi-detached house - built in 1990"\<close> and every limit
  of at least 10, the first line returned starts with the whole word \<open>"semi-detached"\<close>,
  so that no boundary between lines falls inside the word. A boundary at the spaced
  hyphen is allowed, and limit 21 has one.

  Below 10 the word is cut: with limit 5 the text is longer than 10 code units, no
  space lies at or before index 5 or up to index 7, and the hard cut gives \<open>"semi-"\<close>.
\<close>

theorem hyphen_word_kept:
  assumes "10 \<le> limit"
  shows "\<exists>line rest. splitLyrics hyphenExample limit = Some (line # rest)
     \<and> take 13 line = js ''semi-detached''"
proof -
  have "\<exists>line rest. processSegment hyphenExample limit [] = Some (line # rest)
     \<and> take 13 line = js ''semi-detached'' \<and> 0 \<notin> set line"
  proof (cases "24 \<le> limit")
    case True
    then have "ofInt (int (length hyphenExample)) \<le> maxLen limit"
      using hyphenExample_fits by (simp add: hyphenExample_facts)
    then have "processSegment hyphenExample limit [] = Some [hyphenExample]"
      by (simp add: processSegment.simps)
    moreover have "take 13 hyphenExample = js ''semi-detached''" "0 \<notin> set hyphenExample"
      by (simp_all add: hyphenExample_def js_def)
    ultimately show ?thesis by simp
  next
    case False
    with assms hyphenExample_thresholds [of limit]
    have "\<not> ofInt 35 \<le> maxLen limit"
      and "findBestSplitIndex hyphenExample limit \<in> {13, 19, 21}"
      by simp_all
    moreover from assms have "0 < limit" by simp
    ultimately show ?thesis by (intro hyphenExample_first_line)
  qed
  then obtain line rest where
    "processSegment hyphenExample limit [] = Some (line # rest)"
    and line: "take 13 line = js ''semi-detached''" "0 \<notin> set line"
    by blast
  then have "splitLyrics hyphenExample limit = Some (restorePeriods line # map restorePeriods rest)"
    by (simp add: splitLyrics_def hyphenExample_facts)
  with line show ?thesis by (simp add: restorePeriods_id)
qed

theorem hyphen_word_kept_witness:
  "(10::nat) \<le> 14
   \<and> (\<exists>line rest. splitLyrics hyphenExample 14 = Some (line # rest)
        \<and> take 13 line = js ''semi-detached'')"
  using hyphen_word_kept [of 14] by simp

lemma hyphen_boundary_at_spaced_hyphen:
  "splitLyrics hyphenExample 21 = Some [js ''semi-detached house -'', js ''built in 1990'']"
  by (simp add: hyphenExample_def eval_defs)

theorem hyphen_word_cut:
  "splitLyrics hyphenExample 5
     = Some [js ''semi-'', js ''detac'', js ''hed'', js ''house'', js ''- built'', js ''in 1990'']"
  by (simp add: hyphenExample_def eval_defs)

section \<open>The documented examples\<close>

text \<open>
  C7. \<open>splitLyrics("Dr. Smith met Mr. Jones.", 100)\<close> is the one line
  \<open>"Dr. Smith met Mr. Jones."\<close>: the periods of \<open>Dr.\<close> and \<open>Mr.\<close> are replaced by
  U+0000 before splitting (the final period is not), no sentence split happens, and
  the periods are back in the output.
\<close>

theorem abbreviation_preservation:
  "protect (js ''Dr. Smith met Mr. Jones.'')
     = js ''Dr'' @ [0] @ js '' Smith met Mr'' @ [0] @ js '' Jones.''
   \<and> splitLyrics (js ''Dr. Smith met Mr. Jones.'') 100 = Some [js ''Dr. Smith met Mr. Jones.'']"
  by (simp add: eval_defs)

text \<open>
  C8. \<open>splitLyrics("Hello world. This is a test sentence that is quite long indeed.", 20)\<close>:
  the split on sentence punctuation is the strategy that succeeds, and the first line
  returned is exactly \<open>"Hello world."\<close>; the second sentence, too long for one line, is
  cut at spaces into three more.
\<close>

theorem sentence_boundary_split:
  "trySplitAndReflow (js ''Hello world. This is a test sentence that is quite long indeed.'')
      majorSeparator 20 []
     = Some (True, [js ''Hello world.'', js ''This is a test'', js ''sentence that is'',
         js ''quite long indeed.''])
   \<and> splitLyrics (js ''Hello world. This is a test sentence that is quite long indeed.'') 20
     = Some [js ''Hello world.'', js ''This is a test'', js ''sentence that is'',
         js ''quite long indeed.'']"
  by (simp add: eval_defs)

end
